theory Spec2Isabelle
  imports Main "HOL-Library.Char_ord" "HOL-Library.List_Lexorder" "HOL-Library.Sublist"
begin

section \<open>Strings and numbers as the extension uses them\<close>

text \<open>
  JavaScript strings are modelled as \<^typ>\<open>string\<close>; a character stands for one code unit
  below 256. Numbers that count (indices, error counts) are \<^typ>\<open>nat\<close>, positions that the
  code shifts by \<open>- 1\<close> are \<^typ>\<open>int\<close>.
\<close>

definition is_digit :: "char \<Rightarrow> bool" where
  \<comment> \<open>the regular-expression class \<open>\d\<close>\<close>
  "is_digit c = (48 \<le> (of_char c :: nat) \<and> (of_char c :: nat) \<le> 57)"

definition is_line_term :: "char \<Rightarrow> bool" where
  \<comment> \<open>what \<open>.\<close> refuses to match: line feed and carriage return\<close>
  "is_line_term c = (c = CHR 0x0A \<or> c = CHR 0x0D)"

definition is_space :: "char \<Rightarrow> bool" where
  \<comment> \<open>the class \<open>\s\<close>, which is also what \<open>trim()\<close> strips: tab, line feed, vertical tab,
      form feed, carriage return, space, no-break space\<close>
  "is_space c = (c = CHR 0x09 \<or> c = CHR 0x0A \<or> c = CHR 0x0B \<or> c = CHR 0x0C \<or> c = CHR 0x0D
                 \<or> c = CHR 0x20 \<or> c = CHR 0xA0)"

definition digit_char :: "nat \<Rightarrow> char" where
  "digit_char d = char_of (48 + d)"

definition digit_val :: "char \<Rightarrow> nat" where
  "digit_val c = of_char c - 48"

function digits_of :: "nat \<Rightarrow> string" where
  \<comment> \<open>a number inside a template string: its decimal digits\<close>
  "digits_of n = (if n < 10 then [digit_char n] else digits_of (n div 10) @ [digit_char (n mod 10)])"
  by pat_completeness auto
termination
  by (relation "measure id") auto

declare digits_of.simps [simp del]

definition nat_of_digits :: "string \<Rightarrow> nat" where
  \<comment> \<open>\<open>Number(s)\<close> on a string of decimal digits\<close>
  "nat_of_digits ds = foldl (\<lambda>a c. 10 * a + digit_val c) 0 ds"

text \<open>
  A piece of code that may throw returns an outcome: the state it reached, and the message
  of the exception when one was thrown.
\<close>

datatype 's outcome = Done 's | Thrown string 's

section \<open>The Path Resolver: \<open>matchesXPath\<close> and \<open>processXML\<close>\<close>

fun matchesXPath :: "string list \<Rightarrow> string list \<Rightarrow> bool" where
  \<comment> \<open>equal lengths, and every target segment is the current segment or \<open>*\<close>\<close>
  "matchesXPath [] [] = True"
| "matchesXPath (c # cs) (x # xs) = ((x = c \<or> x = ''*'') \<and> matchesXPath cs xs)"
| "matchesXPath _ _ = False"

fun split_on :: "char \<Rightarrow> string \<Rightarrow> string list" where
  \<comment> \<open>\<open>s.split(c)\<close>: the pieces between the separators, empty pieces included\<close>
  "split_on c [] = [[]]"
| "split_on c (x # xs) =
     (if x = c then [] # split_on c xs
      else (case split_on c xs of p # ps \<Rightarrow> (x # p) # ps | [] \<Rightarrow> [[x]]))"

definition xpath_segments :: "string \<Rightarrow> string list" where
  \<comment> \<open>\<open>xpathExpression.split('/').filter(Boolean)\<close>\<close>
  "xpath_segments e = filter (\<lambda>p. p \<noteq> []) (split_on CHR ''/'' e)"

definition render_segment :: "string \<Rightarrow> nat \<Rightarrow> string" where
  \<comment> \<open>the template \<open>`${name}[${index}]`\<close>\<close>
  "render_segment name k = name @ ''['' @ digits_of k @ '']''"

definition match_indexed :: "string \<Rightarrow> (string \<times> nat) option" where
  \<comment> \<open>\<open>s.match(/^(.*)\[(\d+)\]$/)\<close>: groups 1 and 2 (the latter through \<open>Number\<close>), or no match.
      The digits are the run just before the final \<open>]\<close>, the bracket before them is fixed by that,
      and group 1 is all that precedes, which must be free of line terminators.\<close>
  "match_indexed s =
     (case rev s of
        [] \<Rightarrow> None
      | c # r \<Rightarrow>
          if c \<noteq> CHR '']'' then None
          else (case dropWhile is_digit r of
                  [] \<Rightarrow> None
                | b # p \<Rightarrow>
                    if b = CHR ''['' \<and> takeWhile is_digit r \<noteq> [] \<and> \<not> list_ex is_line_term p
                    then Some (rev p, nat_of_digits (rev (takeWhile is_digit r)))
                    else None))"

text \<open>
  The second tokenizer pass is driven by the tokenizer's events. The tokenizer is a library
  outside the repository, so the pass is modelled on the sequence of events it delivers, each
  with the tokenizer's \<open>line\<close> and \<open>column\<close> at that moment. Events without a listener in
  \<open>processXML\<close> are left out. The tokenizer hands an error to the \<open>error\<close> listener and
  goes on when such a listener is registered, and throws the error when none is.
\<close>

datatype xevent =
    OpenTagStart int int       \<comment> \<open>\<open>opentagstart\<close>: \<open>parser.line\<close>, \<open>parser.column\<close>\<close>
  | OpenTag string int int     \<comment> \<open>\<open>opentag\<close>: \<open>node.name\<close>, \<open>parser.line\<close>, \<open>parser.column\<close>\<close>
  | CloseTag                   \<comment> \<open>\<open>closetag\<close>\<close>
  | ParseError string          \<comment> \<open>\<open>error\<close>\<close>

type_synonym position4 = "int \<times> int \<times> int \<times> int"

record px_state =
  currentPath :: "string list"
  lastTag :: "string option"
  found :: position4                      \<comment> \<open>\<open>startLine, startColumn, endLine, endColumn\<close>\<close>
  tagStartStack :: "(int \<times> int) list"

definition px_init :: px_state where
  "px_init = \<lparr> currentPath = [], lastTag = None, found = (-1, -1, -1, -1), tagStartStack = [] \<rparr>"

definition next_segment :: "string option \<Rightarrow> string \<Rightarrow> string" where
  \<comment> \<open>the segment pushed for a start tag, from \<open>lastTag\<close> and \<open>node.name\<close>\<close>
  "next_segment lt name =
     (case lt of
        None \<Rightarrow> render_segment name 1
      | Some t \<Rightarrow>
          (case match_indexed t of
             None \<Rightarrow> render_segment name 1
           | Some (n, k) \<Rightarrow>
               if n = name then render_segment name (k + 1) else render_segment name 1))"

fun px_step :: "string list \<Rightarrow> px_state \<Rightarrow> xevent \<Rightarrow> px_state" where
  "px_step xpath s (OpenTagStart l c) =
     s\<lparr> tagStartStack := tagStartStack s @ [(l - 1, c - 1)] \<rparr>"
| "px_step xpath s (OpenTag name l c) =
     (if tagStartStack s = [] then s
      else
        let tagStart = last (tagStartStack s);
            path = currentPath s @ [next_segment (lastTag s) name];
            s1 = s\<lparr> tagStartStack := butlast (tagStartStack s), currentPath := path \<rparr>
        in if matchesXPath path xpath
           then s1\<lparr> found := (fst tagStart, snd tagStart, l - 1, c - 1) \<rparr>
           else s1)"
| "px_step xpath s CloseTag =
     s\<lparr> lastTag := (if currentPath s = [] then None else Some (last (currentPath s))),
        currentPath := butlast (currentPath s) \<rparr>"
| "px_step xpath s (ParseError m) = s"

fun px_write :: "bool \<Rightarrow> string list \<Rightarrow> xevent list \<Rightarrow> px_state \<Rightarrow> px_state outcome" where
  \<comment> \<open>\<open>parser.write(xml).close()\<close>: the events reach the listeners in document order;
      \<open>errorListener\<close> says whether \<open>parser.on('error', ...)\<close> was called before\<close>
  "px_write errorListener xpath [] s = Done s"
| "px_write errorListener xpath (ev # evs) s =
     (case ev of
        ParseError m \<Rightarrow>
          if errorListener then px_write errorListener xpath evs (px_step xpath s ev)
          else Thrown m s
      | _ \<Rightarrow> px_write errorListener xpath evs (px_step xpath s ev))"

definition processXML :: "xevent list \<Rightarrow> string \<Rightarrow> string + position4" where
  \<comment> \<open>the promise is fulfilled with the four numbers (\<open>Inr\<close>) or rejected with what was
      thrown (\<open>Inl\<close>)\<close>
  "processXML evs xpathExpression =
     (case px_write True (xpath_segments xpathExpression) evs px_init of
        Done s \<Rightarrow> Inr (found s)
      | Thrown m s \<Rightarrow> Inl m)"

section \<open>The Validation Run: \<open>parse\<close>\<close>

subsection \<open>Data\<close>

datatype errtype = NO_ERR | ERR_VALID | ERR_WELLFORM | ERR_SCHEMA

text \<open>
  The specification's classifications are these constants: \<open>VALID\<close> is \<open>NO_ERR\<close>,
  \<open>CONTENT_INVALID\<close> is \<open>ERR_VALID\<close>, \<open>MALFORMED\<close> is \<open>ERR_WELLFORM\<close> and \<open>SCHEMA_INVALID\<close>
  is \<open>ERR_SCHEMA\<close>.
\<close>

record TagInfo =
  uri :: string
  local :: string
  hasContext :: bool

record attribute =               \<comment> \<open>\<open>SaxesAttributeNS\<close>\<close>
  attr_prefix :: string
  attr_local :: string
  attr_uri :: string
  attr_value :: string

record node =                    \<comment> \<open>\<open>SaxesTag\<close> with \<open>xmlns: true\<close>\<close>
  node_uri :: string
  node_local :: string
  node_attributes :: "(string \<times> attribute) list"   \<comment> \<open>an object: key and value, each key once\<close>

record diagnostic =              \<comment> \<open>\<open>vscode.Diagnostic\<close>\<close>
  range_d :: position4             \<comment> \<open>\<open>vscode.Range\<close>: start line, start column, end line, end column\<close>
  message :: string

record verror =                  \<comment> \<open>an error object of the automaton\<close>
  err_msg :: string
  err_names :: "(string \<times> string) list"   \<comment> \<open>\<open>getNames()\<close> through \<open>toJSON()\<close>: \<open>name\<close>, \<open>ns\<close>\<close>

datatype wevent =                \<comment> \<open>the events of \<open>walker.fireEvent(name, args)\<close>\<close>
    EnterStartTag string string
  | AttributeName string string
  | AttributeValue string
  | LeaveStartTag
  | TextEvent string
  | EndTag string string

datatype action =                \<comment> \<open>a call on the automaton or on the name resolver\<close>
    Fire wevent
  | EnterContext
  | DefinePrefix string string
  | LeaveContext
  | WalkerEnd

type_synonym scopes = "(string \<times> string) list list"

text \<open>
  The automaton (\<open>walker\<close>) belongs to the grammar library, which is outside the repository:
  it is a parameter. \<open>fire\<close> is \<open>walker.fireEvent\<close> and \<open>finish\<close> is \<open>walker.end\<close>; both
  answer \<open>false\<close> (here \<open>None\<close>) or an array of errors. The walker was created with the name
  resolver, so \<open>fire\<close> may read the scopes.
\<close>

record 'w automaton =
  fire :: "'w \<Rightarrow> scopes \<Rightarrow> wevent \<Rightarrow> 'w \<times> verror list option"
  finish :: "'w \<Rightarrow> verror list option"

record 'w run_state =
  walker :: 'w
  resolver :: scopes
  error :: errtype
  errorCount :: nat
  diagnostics :: "diagnostic list"           \<comment> \<open>\<open>diagnosticMap.get(xmlURI)\<close>, empty while unset\<close>
  tagStack :: "TagInfo list"                 \<comment> \<open>the top of the stack is the head of the list\<close>
  textBuf :: string
  entities :: "(string \<times> string) list"       \<comment> \<open>\<open>parser.ENTITIES\<close>; the newest entry first\<close>
  trace :: "action list"                     \<comment> \<open>the calls made so far, in order; not in the code\<close>

fun and_then :: "'s outcome \<Rightarrow> ('s \<Rightarrow> 's outcome) \<Rightarrow> 's outcome" where
  "and_then (Done s) f = f s"
| "and_then (Thrown m s) f = Thrown m s"

subsection \<open>The name resolver\<close>

definition enterContext :: "scopes \<Rightarrow> scopes" where
  \<comment> \<open>Modelled from the spec: the resolver class of the grammar library is not in the
      repository. A stack of scopes, innermost first; entering pushes an empty scope.\<close>
  "enterContext sc = [] # sc"

definition definePrefix :: "string \<Rightarrow> string \<Rightarrow> scopes \<Rightarrow> scopes" where
  \<comment> \<open>Modelled from the spec: the resolver class of the grammar library is not in the
      repository. The prefix is defined in the innermost scope.\<close>
  "definePrefix pre u sc = (case sc of [] \<Rightarrow> [] | inner # rest \<Rightarrow> ((pre, u) # inner) # rest)"

definition leaveContext :: "scopes \<Rightarrow> scopes option" where
  \<comment> \<open>Modelled from the spec: the resolver class of the grammar library is not in the
      repository. Leaving pops the innermost scope; with none to pop the call fails.\<close>
  "leaveContext sc = (case sc of [] \<Rightarrow> None | inner # rest \<Rightarrow> Some rest)"

subsection \<open>\<open>fireEvent\<close>: transitions and the range of an automaton error\<close>

fun scan_back :: "string \<Rightarrow> nat \<Rightarrow> int" where
  \<comment> \<open>\<open>for (let i = errorCol0; i >= 0; i--) if (lineText[i] === '<') { startColumn = i; break; }\<close>
      with \<open>startColumn\<close> 0 before the loop\<close>
  "scan_back lineText 0 = 0"
| "scan_back lineText (Suc i) =
     (if Suc i < length lineText \<and> lineText ! Suc i = CHR ''<'' then int (Suc i)
      else scan_back lineText i)"

definition start_column :: "string \<Rightarrow> int \<Rightarrow> int" where
  \<comment> \<open>\<open>errorCol0 = Math.min(errorColumn - 1, lineText.length - 1)\<close>, then the loop\<close>
  "start_column lineText errorColumn =
     (let errorCol0 = min (errorColumn - 1) (int (length lineText) - 1)
      in if errorCol0 < 0 then 0 else scan_back lineText (nat errorCol0))"

definition lineAt :: "string list \<Rightarrow> int \<Rightarrow> string option" where
  \<comment> \<open>\<open>document.lineAt(n).text\<close> of the editor; it throws for a line the document lacks\<close>
  "lineAt lines n = (if 0 \<le> n \<and> n < int (length lines) then Some (lines ! nat n) else None)"

definition tag_start :: "string list option \<Rightarrow> int \<Rightarrow> int \<Rightarrow> string + int" where
  \<comment> \<open>\<open>startColumn\<close> of one error; \<open>doc\<close> is the open document with the URI of the run, if
      \<open>textDocuments.find\<close> gives one\<close>
  "tag_start doc lineNumber errorColumn =
     (case doc of
        None \<Rightarrow> Inr 0
      | Some lines \<Rightarrow>
          (case lineAt lines lineNumber of
             None \<Rightarrow> Inl ''Illegal value for `line`''
           | Some lineText \<Rightarrow> Inr (start_column lineText errorColumn)))"

definition em_dash :: string where
  \<comment> \<open>the dash of the message template, as its three UTF-8 bytes\<close>
  "em_dash = [CHR 0xE2, CHR 0x80, CHR 0x94]"

fun join :: "string \<Rightarrow> string list \<Rightarrow> string" where
  "join sep [] = []"
| "join sep [x] = x"
| "join sep (x # y # ys) = x @ sep @ join sep (y # ys)"

definition namesMsg :: "(string \<times> string) list \<Rightarrow> string" where
  "namesMsg names =
     join '' '' (map (\<lambda>(name, ns). [CHR 0x22] @ name @ [CHR 0x22] @ '' ''
                                   @ (if ns \<noteq> [] then ''('' @ ns @ '')'' else [])) names)"

definition error_message :: "verror \<Rightarrow> string" where
  "error_message err = err_msg err @ '' '' @ em_dash @ '' '' @ namesMsg (err_names err)"

fun report_errors ::
  "string list option \<Rightarrow> nat \<times> nat \<Rightarrow> verror list \<Rightarrow> 'w run_state \<Rightarrow> 'w run_state outcome" where
  \<comment> \<open>the loop \<open>for (const err of ret)\<close>; \<open>pos\<close> is \<open>(parser.line, parser.column)\<close>\<close>
  "report_errors doc pos [] s = Done s"
| "report_errors doc pos (err # errs) s =
     (let lineNumber = int (fst pos) - 1; errorColumn = int (snd pos)
      in case tag_start doc lineNumber errorColumn of
           Inl m \<Rightarrow> Thrown m s
         | Inr startColumn \<Rightarrow>
             report_errors doc pos errs
               (s\<lparr> diagnostics := diagnostics s @
                     [\<lparr> range_d = (lineNumber, startColumn, lineNumber, errorColumn),
                        message = error_message err \<rparr>] \<rparr>))"

definition fireEvent ::
  "'w automaton \<Rightarrow> string list option \<Rightarrow> nat \<times> nat \<Rightarrow> wevent \<Rightarrow> 'w run_state
     \<Rightarrow> 'w run_state outcome" where
  "fireEvent A doc pos ev s =
     (case fire A (walker s) (resolver s) ev of
        (w, ret) \<Rightarrow>
          let s1 = s\<lparr> walker := w, trace := trace s @ [Fire ev] \<rparr>
          in (case ret of
                None \<Rightarrow> Done s1
              | Some errs \<Rightarrow>
                  report_errors doc pos errs
                    (s1\<lparr> error := ERR_VALID, errorCount := errorCount s1 + length errs \<rparr>)))"

definition flushTextBuf ::
  "'w automaton \<Rightarrow> string list option \<Rightarrow> nat \<times> nat \<Rightarrow> 'w run_state \<Rightarrow> 'w run_state outcome" where
  "flushTextBuf A doc pos s =
     (if textBuf s \<noteq> []
      then and_then (fireEvent A doc pos (TextEvent (textBuf s)) s) (\<lambda>s. Done (s\<lparr> textBuf := [] \<rparr>))
      else Done s)"

subsection \<open>The \<open>opentag\<close>, \<open>text\<close> and \<open>closetag\<close> listeners\<close>

definition object_keys :: "(string \<times> 'a) list \<Rightarrow> string list" where
  \<comment> \<open>\<open>Object.keys(obj)\<close>: every key once\<close>
  "object_keys obj = remdups (map fst obj)"

fun partition_attributes ::
  "(string \<times> attribute) list \<Rightarrow> string list \<Rightarrow> (string \<times> string) list \<times> wevent list" where
  \<comment> \<open>the loop \<open>for (const name of names)\<close>, giving \<open>nsDefinitions\<close> and \<open>attributeEvents\<close>;
      a name always has its attribute, since the names are the keys\<close>
  "partition_attributes attrs [] = ([], [])"
| "partition_attributes attrs (name # names) =
     (case partition_attributes attrs names of
        (nsDefinitions, attributeEvents) \<Rightarrow>
          (case map_of attrs name of
             None \<Rightarrow> (nsDefinitions, attributeEvents)
           | Some attr \<Rightarrow>
               if name = ''xmlns'' then (([], attr_value attr) # nsDefinitions, attributeEvents)
               else if attr_prefix attr = ''xmlns''
               then ((attr_local attr, attr_value attr) # nsDefinitions, attributeEvents)
               else (nsDefinitions,
                     AttributeName (attr_uri attr) (attr_local attr)
                       # AttributeValue (attr_value attr) # attributeEvents)))"

definition define_prefix :: "'w run_state \<Rightarrow> string \<times> string \<Rightarrow> 'w run_state" where
  \<comment> \<open>\<open>nameResolver.definePrefix(definition[0], definition[1])\<close>\<close>
  "define_prefix s d =
     s\<lparr> resolver := definePrefix (fst d) (snd d) (resolver s),
        trace := trace s @ [DefinePrefix (fst d) (snd d)] \<rparr>"

definition enter_scope :: "(string \<times> string) list \<Rightarrow> 'w run_state \<Rightarrow> 'w run_state" where
  \<comment> \<open>\<open>if (nsDefinitions.length !== 0) { enterContext(); for (...) definePrefix(...) }\<close>\<close>
  "enter_scope nsDefinitions s =
     (if nsDefinitions \<noteq> []
      then foldl define_prefix
             (s\<lparr> resolver := enterContext (resolver s), trace := trace s @ [EnterContext] \<rparr>)
             nsDefinitions
      else s)"

fun fire_all ::
  "'w automaton \<Rightarrow> string list option \<Rightarrow> nat \<times> nat \<Rightarrow> wevent list \<Rightarrow> 'w run_state
     \<Rightarrow> 'w run_state outcome" where
  \<comment> \<open>\<open>for (const event of attributeEvents) fireEvent(event[0], event.slice(1))\<close>\<close>
  "fire_all A doc pos [] s = Done s"
| "fire_all A doc pos (ev # evs) s = and_then (fireEvent A doc pos ev s) (fire_all A doc pos evs)"

definition on_opentag ::
  "'w automaton \<Rightarrow> string list option \<Rightarrow> nat \<times> nat \<Rightarrow> node \<Rightarrow> 'w run_state
     \<Rightarrow> 'w run_state outcome" where
  "on_opentag A doc pos nd s0 =
     and_then (flushTextBuf A doc pos s0) (\<lambda>s.
       let names = sort (object_keys (node_attributes nd));
           parts = partition_attributes (node_attributes nd) names;
           nsDefinitions = fst parts;
           attributeEvents = snd parts
       in and_then (fireEvent A doc pos (EnterStartTag (node_uri nd) (node_local nd))
                      (enter_scope nsDefinitions s)) (\<lambda>s.
          and_then (fire_all A doc pos attributeEvents s) (\<lambda>s.
          and_then (fireEvent A doc pos LeaveStartTag s) (\<lambda>s.
            Done (s\<lparr> tagStack :=
                       \<lparr> uri = node_uri nd, local = node_local nd,
                          hasContext = (nsDefinitions \<noteq> []) \<rparr> # tagStack s \<rparr>)))))"

definition on_text :: "string \<Rightarrow> 'w run_state \<Rightarrow> 'w run_state outcome" where
  "on_text text s = Done (s\<lparr> textBuf := textBuf s @ text \<rparr>)"

definition leave_scope :: "'w run_state \<Rightarrow> 'w run_state outcome" where
  \<comment> \<open>\<open>nameResolver.leaveContext()\<close>\<close>
  "leave_scope s =
     (case leaveContext (resolver s) of
        None \<Rightarrow> Thrown ''trying to leave the default context'' s
      | Some sc \<Rightarrow> Done (s\<lparr> resolver := sc, trace := trace s @ [LeaveContext] \<rparr>))"

definition on_closetag ::
  "'w automaton \<Rightarrow> string list option \<Rightarrow> nat \<times> nat \<Rightarrow> 'w run_state \<Rightarrow> 'w run_state outcome" where
  "on_closetag A doc pos s0 =
     and_then (flushTextBuf A doc pos s0) (\<lambda>s.
       case tagStack s of
         [] \<Rightarrow> Thrown ''stack underflow'' (s\<lparr> errorCount := errorCount s + 1 \<rparr>)
       | tagInfo # rest \<Rightarrow>
           and_then (fireEvent A doc pos (EndTag (uri tagInfo) (local tagInfo))
                       (s\<lparr> tagStack := rest \<rparr>)) (\<lambda>s.
             if hasContext tagInfo then leave_scope s else Done s))"

subsection \<open>The \<open>doctype\<close> listener\<close>

definition strip_head :: "string \<Rightarrow> string" where
  \<comment> \<open>\<open>.replace(/^.*?\[/, "")\<close>: through the first \<open>[\<close>, if no line break comes before it\<close>
  "strip_head s =
     (case dropWhile (\<lambda>c. c \<noteq> CHR ''['') s of
        [] \<Rightarrow> s
      | b # r \<Rightarrow> if list_ex is_line_term (takeWhile (\<lambda>c. c \<noteq> CHR ''['') s) then s else r)"

fun strip_tail :: "string \<Rightarrow> string" where
  \<comment> \<open>\<open>.replace(/].*?$/, "")\<close>: from the first \<open>]\<close> that no line break follows, to the end\<close>
  "strip_tail [] = []"
| "strip_tail (c # cs) =
     (if c = CHR '']'' \<and> \<not> list_ex is_line_term cs then [] else c # strip_tail cs)"

definition starts_with :: "string \<Rightarrow> string \<Rightarrow> bool" where
  "starts_with pre s = (take (length pre) s = pre)"

fun find_close :: "string \<Rightarrow> nat option" where
  \<comment> \<open>how many characters there are up to the end of the first \<open>-->\<close>\<close>
  "find_close (a # b # c # rest) =
     (if a = CHR ''-'' \<and> b = CHR ''-'' \<and> c = CHR ''>'' then Some 3
      else map_option Suc (find_close (b # c # rest)))"
| "find_close _ = None"

fun strip_from :: "nat \<Rightarrow> string \<Rightarrow> string" where
  \<comment> \<open>\<open>.replace(/<!--(?:.|\n|\r)*?-->/g, "")\<close>, with the number of characters of the current
      comment that are still to be dropped\<close>
  "strip_from k [] = []"
| "strip_from (Suc k) (c # cs) = strip_from k cs"
| "strip_from 0 (c # cs) =
     (if c = CHR ''<'' \<and> starts_with ''!--'' cs
      then (case find_close (drop 3 cs) of
              Some n \<Rightarrow> strip_from (3 + n) cs
            | None \<Rightarrow> c # strip_from 0 cs)
      else c # strip_from 0 cs)"

definition strip_comments :: "string \<Rightarrow> string" where
  "strip_comments s = strip_from 0 s"

definition trim :: "string \<Rightarrow> string" where
  "trim s = rev (dropWhile is_space (rev (dropWhile is_space s)))"

definition cleaned_doctype :: "string \<Rightarrow> string" where
  "cleaned_doctype doctype = trim (strip_comments (strip_tail (strip_head doctype)))"

fun find_value :: "char \<Rightarrow> string \<Rightarrow> (string \<times> string) option" where
  \<comment> \<open>\<open>(.*?)\2\s*>\<close> after the opening quote \<open>q\<close>: the shortest value, free of line breaks,
      that is followed by \<open>q\<close>, white space and \<open>>\<close>; with it, what follows the \<open>>\<close>\<close>
  "find_value q [] = None"
| "find_value q (c # cs) =
     (if c = q \<and> (case dropWhile is_space cs of [] \<Rightarrow> False | g # _ \<Rightarrow> g = CHR ''>'')
      then Some ([], tl (dropWhile is_space cs))
      else if is_line_term c then None
      else (case find_value q cs of None \<Rightarrow> None | Some (v, rest) \<Rightarrow> Some (c # v, rest)))"

definition entity_match :: "string \<Rightarrow> (string \<times> string \<times> string) option" where
  \<comment> \<open>\<open>entityRe.exec(cleaned)\<close> for \<open>/^<!ENTITY\s+([^\s]+)\s+(['"])(.*?)\2\s*>\s*/\<close>:
      group 1, group 3 and the text after the match\<close>
  "entity_match s =
     (if \<not> starts_with ''<!ENTITY'' s then None
      else
        let r1 = dropWhile is_space (drop 8 s);
            name = takeWhile (\<lambda>c. \<not> is_space c) r1;
            r2 = dropWhile (\<lambda>c. \<not> is_space c) r1;
            r3 = dropWhile is_space r2
        in if takeWhile is_space (drop 8 s) = [] \<or> name = [] \<or> takeWhile is_space r2 = [] then None
           else (case r3 of
                   [] \<Rightarrow> None
                 | q # r4 \<Rightarrow>
                     if q \<noteq> CHR 0x27 \<and> q \<noteq> CHR 0x22 then None
                     else (case find_value q r4 of
                             None \<Rightarrow> None
                           | Some (v, rest) \<Rightarrow> Some (name, v, dropWhile is_space rest))))"

lemma find_value_shorter: "find_value q r = Some (v, rest) \<Longrightarrow> length rest < length r"
proof (induction r arbitrary: v rest)
  case Nil
  then show ?case by simp
next
  case (Cons c cs)
  show ?case
  proof (cases "c = q \<and> (case dropWhile is_space cs of [] \<Rightarrow> False | g # _ \<Rightarrow> g = CHR ''>'')")
    case True
    with Cons.prems have "rest = tl (dropWhile is_space cs)" by simp
    moreover have "length (tl (dropWhile is_space cs)) \<le> length cs"
      using length_dropWhile_le [of is_space cs] by simp
    ultimately show ?thesis by simp
  next
    case False
    with Cons.prems obtain v' where "find_value q cs = Some (v', rest)"
      by (auto split: if_splits option.splits)
    with Cons.IH have "length rest < length cs" by blast
    then show ?thesis by simp
  qed
qed

lemma entity_match_shorter:
  assumes "entity_match s = Some (name, v, rest)"
  shows "length rest < length s"
proof -
  let ?r1 = "dropWhile is_space (drop 8 s)"
  let ?r2 = "dropWhile (\<lambda>c. \<not> is_space c) ?r1"
  let ?r3 = "dropWhile is_space ?r2"
  have em: "(if \<not> starts_with ''<!ENTITY'' s then None
        else if takeWhile is_space (drop 8 s) = [] \<or> takeWhile (\<lambda>c. \<not> is_space c) ?r1 = []
                \<or> takeWhile is_space ?r2 = [] then None
        else (case ?r3 of
                [] \<Rightarrow> None
              | q # r4 \<Rightarrow>
                  if q \<noteq> CHR 0x27 \<and> q \<noteq> CHR 0x22 then None
                  else (case find_value q r4 of
                          None \<Rightarrow> None
                        | Some (v, rest) \<Rightarrow>
                            Some (takeWhile (\<lambda>c. \<not> is_space c) ?r1, v, dropWhile is_space rest))))
       = Some (name, v, rest)"
    using assms unfolding entity_match_def Let_def .
  then obtain q r4 where r3: "?r3 = q # r4"
    by (cases ?r3) (simp_all only: list.case if_P if_not_P option.distinct split: if_splits)
  from em r3 obtain v' rest' where fv: "find_value q r4 = Some (v', rest')"
    and rest: "rest = dropWhile is_space rest'"
    by (cases "find_value q r4")
       (auto simp only: list.case option.case prod.case option.inject prod.inject option.distinct
             split: if_splits)
  have "length rest \<le> length rest'" using rest length_dropWhile_le [of is_space rest'] by simp
  also have "\<dots> < length r4" using fv by (rule find_value_shorter)
  also have "\<dots> < length ?r3" using r3 by simp
  also have "\<dots> \<le> length ?r2" by (rule length_dropWhile_le)
  also have "\<dots> \<le> length ?r1" by (rule length_dropWhile_le)
  also have "\<dots> \<le> length (drop 8 s)" by (rule length_dropWhile_le)
  also have "\<dots> \<le> length s" by simp
  finally show ?thesis .
qed

function scan_entities :: "string \<Rightarrow> string \<Rightarrow> 'w run_state \<Rightarrow> 'w run_state outcome" where
  \<comment> \<open>the loop \<open>while (cleaned.length !== 0)\<close>\<close>
  "scan_entities doctype cleaned s =
     (if cleaned = [] then Done s
      else (case entity_match cleaned of
              Some (name, v, rest) \<Rightarrow>
                if map_of (entities s) name \<noteq> None
                then Thrown (''redefining entity: '' @ name) s
                else scan_entities doctype rest (s\<lparr> entities := (name, v) # entities s \<rparr>)
            | None \<Rightarrow>
                Thrown (''unexpected construct in DOCTYPE: '' @ doctype)
                       (s\<lparr> errorCount := errorCount s + 1 \<rparr>)))"
  by pat_completeness auto
termination
  by (relation "measure (\<lambda>(doctype, cleaned, s). length cleaned)")
     (auto dest: entity_match_shorter)

declare scan_entities.simps [simp del]

definition on_doctype :: "string \<Rightarrow> 'w run_state \<Rightarrow> 'w run_state outcome" where
  "on_doctype doctype s = scan_entities doctype (cleaned_doctype doctype) s"

subsection \<open>The token stream, the \<open>end\<close> listener and the \<open>catch\<close> block\<close>

text \<open>
  \<open>parser.write(xmlSource).close()\<close> makes the tokenizer call the listeners in document
  order. The first tokenizer is outside the repository as well: the run is modelled on the
  sequence of its events, each with \<open>(parser.line, parser.column)\<close> at that moment. Without
  an \<open>error\<close> listener the tokenizer throws on malformed markup; that is the event \<open>Fail\<close>,
  also when it happens inside \<open>close()\<close>. If nothing was thrown, \<open>close()\<close> calls the
  \<open>end\<close> listener.
\<close>

datatype token =
    Open node
  | Text string
  | Close
  | Doctype string
  | Fail string

definition handle ::
  "'w automaton \<Rightarrow> string list option \<Rightarrow> nat \<times> nat \<Rightarrow> token \<Rightarrow> 'w run_state
     \<Rightarrow> 'w run_state outcome" where
  "handle A doc pos tok s =
     (case tok of
        Open nd \<Rightarrow> on_opentag A doc pos nd s
      | Text text \<Rightarrow> on_text text s
      | Close \<Rightarrow> on_closetag A doc pos s
      | Doctype doctype \<Rightarrow> on_doctype doctype s
      | Fail m \<Rightarrow> Thrown m s)"

datatype 's fed = Completed 's | Aborted "nat \<times> nat" string 's

fun feed ::
  "'w automaton \<Rightarrow> string list option \<Rightarrow> ((nat \<times> nat) \<times> token) list \<Rightarrow> 'w run_state
     \<Rightarrow> 'w run_state fed" where
  "feed A doc [] s = Completed s"
| "feed A doc ((pos, tok) # toks) s =
     (case handle A doc pos tok s of
        Done s' \<Rightarrow> feed A doc toks s'
      | Thrown m s' \<Rightarrow> Aborted pos m s')"

definition on_end :: "'w automaton \<Rightarrow> 'w run_state \<Rightarrow> 'w run_state" where
  "on_end A s =
     (case finish A (walker s) of
        None \<Rightarrow> s\<lparr> trace := trace s @ [WalkerEnd] \<rparr>
      | Some result \<Rightarrow>
          s\<lparr> trace := trace s @ [WalkerEnd], error := ERR_WELLFORM,
             errorCount := errorCount s + length result \<rparr>)"

definition catch_block :: "nat \<times> nat \<Rightarrow> string \<Rightarrow> 'w run_state \<Rightarrow> 'w run_state" where
  \<comment> \<open>\<open>pos\<close> is \<open>(parser.line, parser.column)\<close> when the exception was thrown\<close>
  "catch_block pos m s =
     s\<lparr> errorCount := errorCount s + 1, error := ERR_WELLFORM,
        diagnostics := diagnostics s @
          [\<lparr> range_d = (int (fst pos) - 1, 0, int (fst pos) - 1, int (snd pos)), message = m \<rparr>] \<rparr>"

definition init_state :: "'w \<Rightarrow> (string \<times> string) list \<Rightarrow> 'w run_state" where
  \<comment> \<open>\<open>ents\<close> are the entities the tokenizer starts with\<close>
  "init_state w ents =
     \<lparr> walker = w, resolver = [], error = NO_ERR, errorCount = 0, diagnostics = [],
       tagStack = [], textBuf = [], entities = ents, trace = [] \<rparr>"

definition try_block ::
  "'w automaton \<Rightarrow> string list option \<Rightarrow> ((nat \<times> nat) \<times> token) list \<Rightarrow> 'w run_state
     \<Rightarrow> 'w run_state" where
  \<comment> \<open>\<open>try { ...; parser.write(xmlSource).close(); } catch (err) { ... }\<close>\<close>
  "try_block A doc toks s =
     (case feed A doc toks s of
        Completed s' \<Rightarrow> on_end A s'
      | Aborted pos m s' \<Rightarrow> catch_block pos m s')"

record parse_result =
  errorType :: errtype
  errorCount_r :: nat
  diagnostics_r :: "diagnostic list"

definition validation_run ::
  "'w automaton \<Rightarrow> 'w \<Rightarrow> (string \<times> string) list \<Rightarrow> string list option
     \<Rightarrow> ((nat \<times> nat) \<times> token) list \<Rightarrow> parse_result" where
  \<comment> \<open>\<open>parse\<close> from the line that creates the walker to its \<open>return\<close>\<close>
  "validation_run A w ents doc toks =
     (let s = try_block A doc toks (init_state w ents)
      in \<lparr> errorType = error s, errorCount_r = errorCount s, diagnostics_r = diagnostics s \<rparr>)"

subsection \<open>What \<open>doValidation\<close> does with the result\<close>

datatype followup =
    Schematron string      \<comment> \<open>\<open>doSchematronValidation(message, ...)\<close>: the Constraint Engine runs\<close>
  | StatusOnly string      \<comment> \<open>only \<open>setStatusBarMessage\<close>\<close>

fun dispatch :: "errtype \<Rightarrow> followup" where
  "dispatch ERR_VALID = Schematron ''XML is not valid''"
| "dispatch ERR_WELLFORM = StatusOnly ''$(error) XML is not well formed.''"
| "dispatch ERR_SCHEMA = Schematron ''RNG schema is incorrect.''"
| "dispatch NO_ERR = Schematron ''XML is valid.''"

section \<open>The Grammar Cache: \<open>grammarStore\<close>\<close>

record 'g StoredGrammar =
  rngURI :: "string option"
  grammar :: "'g option"

record 'g cache =
  grammarStore :: "string \<Rightarrow> 'g StoredGrammar option"
  compilations :: "string list"     \<comment> \<open>the calls of \<open>grammarFromSource\<close> so far; not in the code\<close>

definition select_schema :: "string \<Rightarrow> string \<Rightarrow> 'g cache \<Rightarrow> 'g cache \<times> bool" where
  \<comment> \<open>\<open>doValidation\<close>: the record is created if missing; a schema location other than the
      saved one clears the grammar and sets \<open>isNewSchema\<close>\<close>
  "select_schema xmlURI schema c =
     (let stored = (case grammarStore c xmlURI of
                      None \<Rightarrow> \<lparr> rngURI = None, grammar = None \<rparr>
                    | Some r \<Rightarrow> r)
      in if rngURI stored \<noteq> Some schema
         then (c\<lparr> grammarStore := (grammarStore c)(xmlURI \<mapsto> \<lparr> rngURI = Some schema, grammar = None \<rparr>) \<rparr>,
               True)
         else (c\<lparr> grammarStore := (grammarStore c)(xmlURI \<mapsto> stored) \<rparr>, False))"

definition load_grammar ::
  "(string \<Rightarrow> 'g option) \<Rightarrow> bool \<Rightarrow> string \<Rightarrow> string \<Rightarrow> 'g cache \<Rightarrow> string + 'g cache \<times> 'g option" where
  \<comment> \<open>the head of \<open>parse\<close>; \<open>compile\<close> is \<open>grammarFromSource\<close>, \<open>None\<close> when it could not parse
      the schema. Reading a field of a missing record is a \<open>TypeError\<close>.\<close>
  "load_grammar compile isNewSchema rngSource xmlURI c =
     (case grammarStore c xmlURI of
        None \<Rightarrow>
          if \<not> isNewSchema then Inl ''TypeError''
          else (case compile rngSource of
                  None \<Rightarrow> Inr (c\<lparr> compilations := compilations c @ [rngSource] \<rparr>, None)
                | Some g \<Rightarrow> Inl ''TypeError'')
      | Some r \<Rightarrow>
          (case (if \<not> isNewSchema then grammar r else None) of
             Some g \<Rightarrow>
               Inr (c\<lparr> grammarStore := (grammarStore c)(xmlURI \<mapsto> r\<lparr> grammar := Some g \<rparr>) \<rparr>, Some g)
           | None \<Rightarrow>
               (case compile rngSource of
                  None \<Rightarrow> Inr (c\<lparr> compilations := compilations c @ [rngSource] \<rparr>, None)
                | Some g \<Rightarrow>
                    Inr (c\<lparr> grammarStore := (grammarStore c)(xmlURI \<mapsto> r\<lparr> grammar := Some g \<rparr>),
                           compilations := compilations c @ [rngSource] \<rparr>, Some g))))"

definition resolve ::
  "(string \<Rightarrow> 'g option) \<Rightarrow> string \<Rightarrow> string \<Rightarrow> 'g cache \<Rightarrow> string + 'g cache \<times> 'g option" where
  \<comment> \<open>one validation as far as the grammar: \<open>doValidation\<close>, then the head of \<open>parse\<close>\<close>
  "resolve compile xmlURI schema c =
     (case select_schema xmlURI schema c of
        (c1, isNewSchema) \<Rightarrow> load_grammar compile isNewSchema schema xmlURI c1)"

definition empty_cache :: "'g cache" where
  "empty_cache = \<lparr> grammarStore = Map.empty, compilations = [] \<rparr>"

section \<open>Descriptions used in the statements\<close>

subsection \<open>The Path Resolver over segments\<close>

text \<open>
  Two further descriptions of the pass, over structured segments (local name, occurrence
  index) instead of rendered strings. \<open>indexed_tags\<close> keeps one most recently closed tag
  for the whole document; \<open>sibling_tags\<close> keeps one per nesting depth, as the specification
  says. Both list every start tag in document order with its indexed path and the range
  between the tokenizer's positions at \<open>opentagstart\<close> and at \<open>opentag\<close>.
\<close>

type_synonym iseg = "string \<times> nat"

definition render_iseg :: "iseg \<Rightarrow> string" where
  "render_iseg sg = render_segment (fst sg) (snd sg)"

definition next_index :: "iseg option \<Rightarrow> string \<Rightarrow> nat" where
  \<comment> \<open>the previous one's index + 1 if it has the same name, else 1\<close>
  "next_index lc name = (case lc of None \<Rightarrow> 1 | Some (n, k) \<Rightarrow> if n = name then k + 1 else 1)"

record ref_state =
  rpath :: "iseg list"
  rlast :: "iseg option"
  rstarts :: "(int \<times> int) list"
  rtags :: "(iseg list \<times> position4) list"

definition ref_init :: ref_state where
  "ref_init = \<lparr> rpath = [], rlast = None, rstarts = [], rtags = [] \<rparr>"

fun ref_step :: "ref_state \<Rightarrow> xevent \<Rightarrow> ref_state" where
  "ref_step r (OpenTagStart l c) = r\<lparr> rstarts := rstarts r @ [(l - 1, c - 1)] \<rparr>"
| "ref_step r (OpenTag name l c) =
     (if rstarts r = [] then r
      else
        let st = last (rstarts r);
            p = rpath r @ [(name, next_index (rlast r) name)]
        in r\<lparr> rstarts := butlast (rstarts r), rpath := p,
              rtags := rtags r @ [(p, (fst st, snd st, l - 1, c - 1))] \<rparr>)"
| "ref_step r CloseTag =
     r\<lparr> rlast := (if rpath r = [] then None else Some (last (rpath r))),
        rpath := butlast (rpath r) \<rparr>"
| "ref_step r (ParseError m) = r"

definition indexed_tags :: "xevent list \<Rightarrow> (iseg list \<times> position4) list" where
  "indexed_tags evs = rtags (foldl ref_step ref_init evs)"

record sib_state =
  spath :: "iseg list"
  sclosed :: "iseg option list"    \<comment> \<open>per depth, innermost first: the most recently closed sibling\<close>
  sstarts :: "(int \<times> int) list"
  stags :: "(iseg list \<times> position4) list"

definition sib_init :: sib_state where
  "sib_init = \<lparr> spath = [], sclosed = [None], sstarts = [], stags = [] \<rparr>"

fun sib_step :: "sib_state \<Rightarrow> xevent \<Rightarrow> sib_state" where
  "sib_step r (OpenTagStart l c) = r\<lparr> sstarts := sstarts r @ [(l - 1, c - 1)] \<rparr>"
| "sib_step r (OpenTag name l c) =
     (if sstarts r = [] then r
      else
        let st = last (sstarts r);
            prev = (case sclosed r of [] \<Rightarrow> None | x # _ \<Rightarrow> x);
            p = spath r @ [(name, next_index prev name)]
        in r\<lparr> sstarts := butlast (sstarts r), spath := p, sclosed := None # sclosed r,
              stags := stags r @ [(p, (fst st, snd st, l - 1, c - 1))] \<rparr>)"
| "sib_step r CloseTag =
     (if spath r = [] then r
      else r\<lparr> spath := butlast (spath r),
              sclosed := (case sclosed r of
                            _ # _ # rest \<Rightarrow> Some (last (spath r)) # rest
                          | _ \<Rightarrow> [Some (last (spath r))]) \<rparr>)"
| "sib_step r (ParseError m) = r"

definition sibling_tags :: "xevent list \<Rightarrow> (iseg list \<times> position4) list" where
  "sibling_tags evs = stags (foldl sib_step sib_init evs)"

definition path_matches :: "string list \<Rightarrow> iseg list \<Rightarrow> bool" where
  \<comment> \<open>equal length; each target segment is the segment rendered \<open>name[index]\<close>, or \<open>*\<close>\<close>
  "path_matches target p = list_all2 (\<lambda>t sg. t = render_iseg sg \<or> t = ''*'') target p"

definition no_match :: position4 where
  "no_match = (-1, -1, -1, -1)"

definition last_match :: "string list \<Rightarrow> (iseg list \<times> position4) list \<Rightarrow> position4" where
  "last_match target tags =
     (let ms = filter (\<lambda>tg. path_matches target (fst tg)) tags
      in if ms = [] then no_match else snd (last ms))"

definition first_match :: "string list \<Rightarrow> (iseg list \<times> position4) list \<Rightarrow> position4" where
  "first_match target tags =
     (case filter (\<lambda>tg. path_matches target (fst tg)) tags of
        [] \<Rightarrow> no_match
      | m # _ \<Rightarrow> snd m)"

fun plain_event :: "xevent \<Rightarrow> bool" where
  \<comment> \<open>a tag name as the tokenizer delivers it: made of name characters, so free of line breaks\<close>
  "plain_event (OpenTag name l c) = (\<not> list_ex is_line_term name)"
| "plain_event _ = True"

fun is_error_event :: "xevent \<Rightarrow> bool" where
  "is_error_event (ParseError m) = True"
| "is_error_event _ = False"

definition px_run :: "string list \<Rightarrow> xevent list \<Rightarrow> px_state" where
  \<comment> \<open>the listeners' variables after the events\<close>
  "px_run xpath evs = foldl (px_step xpath) px_init evs"

definition px_rel :: "string list \<Rightarrow> px_state \<Rightarrow> ref_state \<Rightarrow> bool" where
  "px_rel xpath s r =
     (currentPath s = map render_iseg (rpath r) \<and> lastTag s = map_option render_iseg (rlast r)
      \<and> tagStartStack s = rstarts r \<and> found s = last_match xpath (rtags r)
      \<and> (\<forall>sg\<in>set (rpath r). \<not> list_ex is_line_term (fst sg))
      \<and> (\<forall>sg. rlast r = Some sg \<longrightarrow> \<not> list_ex is_line_term (fst sg)))"

subsection \<open>The Grammar Cache\<close>

definition stored_grammar :: "'g cache \<Rightarrow> string \<Rightarrow> 'g option" where
  \<comment> \<open>\<open>grammarStore[xmlURI].grammar\<close>, unset also when there is no record\<close>
  "stored_grammar c xmlURI = (case grammarStore c xmlURI of None \<Rightarrow> None | Some r \<Rightarrow> grammar r)"

definition cache_after :: "(string \<Rightarrow> 'g option) \<Rightarrow> string \<Rightarrow> string \<Rightarrow> 'g cache \<Rightarrow> 'g cache" where
  \<comment> \<open>the cache that one validation leaves behind\<close>
  "cache_after compile xmlURI schema c =
     (case resolve compile xmlURI schema c of Inl m \<Rightarrow> c | Inr (c', g) \<Rightarrow> c')"

subsection \<open>The listeners and their calls\<close>

fun state_of :: "'s outcome \<Rightarrow> 's" where
  \<comment> \<open>the state a listener leaves, whether it returned or threw\<close>
  "state_of (Done s) = s"
| "state_of (Thrown m s) = s"












definition not_well_formed :: followup where
  "not_well_formed = StatusOnly ''$(error) XML is not well formed.''"

subsection \<open>Nesting and scopes\<close>





subsection \<open>Runs of text\<close>






subsection \<open>The internal subset as the specification words it\<close>

definition between_brackets :: "string \<Rightarrow> string" where
  \<comment> \<open>everything before the first \<open>[\<close> and after the last \<open>]\<close> stripped, brackets included\<close>
  "between_brackets s =
     (let r = (case dropWhile (\<lambda>c. c \<noteq> CHR ''['') s of [] \<Rightarrow> s | b # r \<Rightarrow> r)
      in case dropWhile (\<lambda>c. c \<noteq> CHR '']'') (rev r) of [] \<Rightarrow> r | b # p \<Rightarrow> rev p)"

subsection \<open>Entity declarations\<close>

text \<open>
  An entity declaration as the pattern \<open><!ENTITY name "value">\<close> reads it, with the white
  space that the pattern allows: after the keyword, after the name, before the \<open>>\<close> and
  after it.
\<close>

record entity =
  decl_space1 :: string
  decl_name :: string
  decl_space2 :: string
  decl_quote :: char
  decl_value :: string
  decl_space3 :: string
  decl_gap :: string

definition entity_decl :: "entity \<Rightarrow> string" where
  "entity_decl d =
     ''<!ENTITY'' @ decl_space1 d @ decl_name d @ decl_space2 d @ [decl_quote d] @ decl_value d
       @ [decl_quote d] @ decl_space3 d @ ''>'' @ decl_gap d"

definition entity_shaped :: "entity \<Rightarrow> bool" where
  \<comment> \<open>white space where the pattern wants it, a name without white space, one of the two
      quotes, a value without line breaks\<close>
  "entity_shaped d =
     (decl_space1 d \<noteq> [] \<and> list_all is_space (decl_space1 d)
      \<and> decl_name d \<noteq> [] \<and> \<not> list_ex is_space (decl_name d)
      \<and> decl_space2 d \<noteq> [] \<and> list_all is_space (decl_space2 d)
      \<and> (decl_quote d = CHR 0x27 \<or> decl_quote d = CHR 0x22)
      \<and> \<not> list_ex is_line_term (decl_value d)
      \<and> list_all is_space (decl_space3 d) \<and> list_all is_space (decl_gap d))"

definition well_formed_decl :: "entity \<Rightarrow> bool" where
  \<comment> \<open>moreover the value is free of its own quote\<close>
  "well_formed_decl d = (entity_shaped d \<and> decl_quote d \<notin> set (decl_value d))"

definition declarations :: "entity list \<Rightarrow> string" where
  "declarations ds = concat (map entity_decl ds)"

fun register_all :: "entity list \<Rightarrow> 'w run_state \<Rightarrow> 'w run_state outcome" where
  \<comment> \<open>each entity registered in turn; a name that is already defined is fatal\<close>
  "register_all [] s = Done s"
| "register_all (d # ds) s =
     (if map_of (entities s) (decl_name d) \<noteq> None
      then Thrown (''redefining entity: '' @ decl_name d) s
      else register_all ds (s\<lparr> entities := (decl_name d, decl_value d) # entities s \<rparr>))"

section \<open>Example inputs\<close>

definition doc_r_a_b_a :: "xevent list" where
  \<comment> \<open>the events of \<open><r><a/><b><a/></b></r>\<close>, on one line\<close>
  "doc_r_a_b_a =
     [OpenTagStart 1 3, OpenTag ''r'' 1 3,
      OpenTagStart 1 6, OpenTag ''a'' 1 7, CloseTag,
      OpenTagStart 1 10, OpenTag ''b'' 1 10,
      OpenTagStart 1 13, OpenTag ''a'' 1 14, CloseTag,
      CloseTag, CloseTag]"

definition malformed_events :: "xevent list" where
  \<comment> \<open>the events of the malformed \<open><r><a></r>\<close>: at \<open></r>\<close> the tokenizer closes \<open>a\<close>, reports
      the error and closes \<open>r\<close>\<close>
  "malformed_events =
     [OpenTagStart 1 3, OpenTag ''r'' 1 3, OpenTagStart 1 6, OpenTag ''a'' 1 6,
      CloseTag, ParseError ''1:10: unexpected close tag.'', CloseTag]"

definition never_compiles :: "string \<Rightarrow> nat option" where
  \<comment> \<open>a Grammar Compiler that cannot parse the schema\<close>
  "never_compiles rngSource = None"

definition always_compiles :: "string \<Rightarrow> nat option" where
  "always_compiles rngSource = Some (length rngSource)"

definition root_automaton :: "bool automaton" where
  \<comment> \<open>an automaton for a grammar whose document element is \<open>doc\<close>: another start tag is an
      error, and at the end the element \<open>doc\<close> must have been seen\<close>
  "root_automaton =
     \<lparr> fire = (\<lambda>w sc ev. case ev of
                 EnterStartTag u l \<Rightarrow>
                   if l = ''doc'' then (True, None)
                   else (w, Some [\<lparr> err_msg = ''tag not allowed here'', err_names = [(l, u)] \<rparr>])
               | _ \<Rightarrow> (w, None)),
       finish = (\<lambda>w. if w then None
                      else Some [\<lparr> err_msg = ''tag required'', err_names = [(''doc'', [])] \<rparr>]) \<rparr>"

definition element :: "string \<Rightarrow> string \<Rightarrow> (string \<times> attribute) list \<Rightarrow> node" where
  "element u l attrs = \<lparr> node_uri = u, node_local = l, node_attributes = attrs \<rparr>"



definition a_tag :: node where
  \<comment> \<open>\<open><a>\<close>, in no namespace and without attributes\<close>
  "a_tag = element [] ''a'' []"

definition doc_element :: node where
  \<comment> \<open>\<open><doc>\<close>, in no namespace and without attributes\<close>
  "doc_element = element [] ''doc'' []"


definition two_lines :: "string list" where
  \<comment> \<open>an open document of two lines\<close>
  "two_lines = [''<doc>'', ''  <a b=1>'']"



definition two_entities :: string where
  \<comment> \<open>the doctype \<open><!DOCTYPE doc [<!ENTITY a "1"><!ENTITY a "2">]>\<close>\<close>
  "two_entities = '' doc [<!ENTITY a '' @ [CHR 0x22] @ ''1'' @ [CHR 0x22] @ ''><!ENTITY a ''
                   @ [CHR 0x22] @ ''2'' @ [CHR 0x22] @ ''>]''"

definition entity_a :: "string \<Rightarrow> entity" where
  \<comment> \<open>the declaration \<open><!ENTITY a "v">\<close>\<close>
  "entity_a v =
     \<lparr> decl_space1 = '' '', decl_name = ''a'', decl_space2 = '' '', decl_quote = CHR 0x22,
       decl_value = v, decl_space3 = [], decl_gap = [] \<rparr>"

definition bracket_entity :: string where
  \<comment> \<open>the doctype \<open><!DOCTYPE doc [<!ENTITY a "]">]>\<close>\<close>
  "bracket_entity = '' doc [<!ENTITY a '' @ [CHR 0x22] @ '']'' @ [CHR 0x22] @ ''>]''"

section \<open>Proofs: the Path Resolver\<close>

lemma digit_val_digit_char: "d < 10 \<Longrightarrow> digit_val (digit_char d) = d"
  by (simp add: digit_val_def digit_char_def)

lemma is_digit_digit_char: "d < 10 \<Longrightarrow> is_digit (digit_char d)"
  by (simp add: is_digit_def digit_char_def)

lemma digits_of_digits: "c \<in> set (digits_of n) \<Longrightarrow> is_digit c"
proof (induction n arbitrary: c rule: digits_of.induct)
  case (1 n)
  show ?case
  proof (cases "n < 10")
    case True
    with "1.prems" show ?thesis by (simp add: digits_of.simps [of n] is_digit_digit_char)
  next
    case False
    with "1.prems" "1.IH" show ?thesis
      by (auto simp: digits_of.simps [of n] is_digit_digit_char)
  qed
qed

lemma digits_of_nonempty: "digits_of n \<noteq> []"
  by (simp add: digits_of.simps [of n])

lemma nat_of_digits_snoc: "nat_of_digits (ds @ [c]) = 10 * nat_of_digits ds + digit_val c"
  by (simp add: nat_of_digits_def)

lemma nat_of_digits_of: "nat_of_digits (digits_of n) = n"
proof (induction n rule: digits_of.induct)
  case (1 n)
  show ?case
  proof (cases "n < 10")
    case True
    then show ?thesis by (simp add: digits_of.simps [of n] nat_of_digits_def digit_val_digit_char)
  next
    case False
    with "1.IH" show ?thesis
      by (simp add: digits_of.simps [of n] nat_of_digits_snoc digit_val_digit_char)
  qed
qed

lemma not_digit_bracket: "\<not> is_digit CHR ''[''"
  by (simp add: is_digit_def)

lemma takeWhile_run: "\<forall>x\<in>set xs. P x \<Longrightarrow> \<not> P y \<Longrightarrow> takeWhile P (xs @ y # ys) = xs"
  by (induction xs) auto

lemma dropWhile_run: "\<forall>x\<in>set xs. P x \<Longrightarrow> \<not> P y \<Longrightarrow> dropWhile P (xs @ y # ys) = y # ys"
  by (induction xs) auto

lemma match_indexed_render:
  assumes "\<not> list_ex is_line_term name"
  shows "match_indexed (render_segment name k) = Some (name, k)"
proof -
  let ?ds = "rev (digits_of k)"
  have all: "\<forall>c\<in>set ?ds. is_digit c" using digits_of_digits by simp
  have tw: "takeWhile is_digit (?ds @ CHR ''['' # rev name) = ?ds"
    using all not_digit_bracket by (rule takeWhile_run)
  have dw: "dropWhile is_digit (?ds @ CHR ''['' # rev name) = CHR ''['' # rev name"
    using all not_digit_bracket by (rule dropWhile_run)
  have r: "rev (render_segment name k) = CHR '']'' # (?ds @ CHR ''['' # rev name)"
    by (simp add: render_segment_def)
  from assms have nl: "\<not> list_ex is_line_term (rev name)" by (simp add: list_ex_iff)
  show ?thesis
    unfolding match_indexed_def r using tw dw nl digits_of_nonempty [of k]
    by (simp add: nat_of_digits_of)
qed

lemma matchesXPath_render: "matchesXPath (map render_iseg p) xpath = path_matches xpath p"
  unfolding path_matches_def
proof (induction p arbitrary: xpath)
  case Nil
  then show ?case by (cases xpath) simp_all
next
  case (Cons sg p)
  then show ?case by (cases xpath) auto
qed

lemma last_match_snoc:
  "last_match t (tags @ [tg]) = (if path_matches t (fst tg) then snd tg else last_match t tags)"
  by (simp add: last_match_def)

lemma next_segment_index:
  assumes "\<forall>sg. lc = Some sg \<longrightarrow> \<not> list_ex is_line_term (fst sg)"
  shows "next_segment (map_option render_iseg lc) name = render_iseg (name, next_index lc name)"
proof (cases lc)
  case None
  then show ?thesis by (simp add: next_segment_def next_index_def render_iseg_def)
next
  case (Some sg)
  obtain n k where sg: "sg = (n, k)" by (cases sg)
  with Some assms have "match_indexed (render_segment n k) = Some (n, k)"
    by (simp add: match_indexed_render)
  with Some sg show ?thesis
    by (simp add: next_segment_def next_index_def render_iseg_def)
qed

lemma px_rel_step:
  assumes "px_rel xpath s r" and "plain_event e"
  shows "px_rel xpath (px_step xpath s e) (ref_step r e)"
proof (cases e)
  case (OpenTagStart l c)
  with assms show ?thesis by (simp add: px_rel_def)
next
  case (OpenTag name l c)
  let ?sg = "(name, next_index (rlast r) name)"
  from assms(1) have cp: "currentPath s = map render_iseg (rpath r)"
    and lt: "lastTag s = map_option render_iseg (rlast r)"
    and st: "tagStartStack s = rstarts r"
    and fd: "found s = last_match xpath (rtags r)"
    and pl: "\<forall>sg\<in>set (rpath r). \<not> list_ex is_line_term (fst sg)"
    and ll: "\<forall>sg. rlast r = Some sg \<longrightarrow> \<not> list_ex is_line_term (fst sg)"
    by (simp_all add: px_rel_def)
  have ns: "next_segment (map_option render_iseg (rlast r)) name = render_iseg ?sg"
    using ll by (rule next_segment_index)
  have m: "matchesXPath (map render_iseg (rpath r) @ [render_iseg ?sg]) xpath
           = path_matches xpath (rpath r @ [?sg])"
    using matchesXPath_render [of "rpath r @ [?sg]" xpath] by simp
  from assms(2) OpenTag have pn: "\<not> list_ex is_line_term name" by simp
  show ?thesis
  proof (cases "rstarts r = []")
    case True
    with assms(1) st OpenTag show ?thesis by simp
  next
    case False
    then show ?thesis
      unfolding px_rel_def OpenTag
      by (simp add: ns m Let_def st last_match_snoc cp fd pl ll pn lt)
  qed
next
  case CloseTag
  from assms(1) have pl: "\<forall>sg\<in>set (rpath r). \<not> list_ex is_line_term (fst sg)"
    by (simp add: px_rel_def)
  have lst: "rpath r \<noteq> [] \<longrightarrow> (\<forall>a b. last (rpath r) = (a, b) \<longrightarrow> \<not> list_ex is_line_term a)"
    using pl last_in_set [of "rpath r"] by fastforce
  have bl: "\<forall>sg\<in>set (butlast (rpath r)). \<not> list_ex is_line_term (fst sg)"
    using pl by (blast dest: in_set_butlastD)
  from assms(1) CloseTag show ?thesis
    unfolding px_rel_def using lst bl by (auto simp: last_map map_butlast)
next
  case (ParseError m)
  with assms show ?thesis by simp
qed

lemma px_rel_run:
  "list_all plain_event evs \<Longrightarrow> px_rel xpath (px_run xpath evs) (foldl ref_step ref_init evs)"
proof (induction evs rule: rev_induct)
  case Nil
  show ?case by (simp add: px_rel_def px_run_def px_init_def ref_init_def last_match_def no_match_def)
next
  case (snoc e evs)
  then have "px_rel xpath (px_run xpath evs) (foldl ref_step ref_init evs)" and "plain_event e"
    by simp_all
  then show ?case using px_rel_step [of xpath "px_run xpath evs" "foldl ref_step ref_init evs" e]
    by (simp add: px_run_def)
qed

lemma px_write_listener: "px_write True xpath evs s = Done (foldl (px_step xpath) s evs)"
proof (induction evs arbitrary: s)
  case Nil
  show ?case by simp
next
  case (Cons ev evs)
  then show ?case by (cases ev) simp_all
qed

lemma processXML_found: "processXML evs e = Inr (found (px_run (xpath_segments e) evs))"
  by (simp add: processXML_def px_write_listener px_run_def)

lemma px_write_no_listener:
  "list_ex is_error_event evs \<Longrightarrow> \<exists>m s'. px_write False xpath evs s = Thrown m s'"
proof (induction evs arbitrary: s)
  case Nil
  then show ?case by simp
next
  case (Cons ev evs)
  then show ?case by (cases ev) simp_all
qed

lemma px_run_indexed:
  assumes "list_all plain_event evs"
  shows "found (px_run xpath evs) = last_match xpath (indexed_tags evs)"
  using px_rel_run [OF assms, of xpath] by (simp add: px_rel_def indexed_tags_def)

lemma px_run_errors_ignored:
  "foldl (px_step xpath) s (filter (\<lambda>e. \<not> is_error_event e) evs) = foldl (px_step xpath) s evs"
proof (induction evs arbitrary: s)
  case Nil
  show ?case by simp
next
  case (Cons e evs)
  then show ?case by (cases e) simp_all
qed

lemma last_match_none:
  "list_all (\<lambda>tg. \<not> path_matches t (fst tg)) tags \<Longrightarrow> last_match t tags = (-1, -1, -1, -1)"
  by (simp add: last_match_def no_match_def filter_empty_conv list_all_iff)

text \<open>
  The specification's scenario: in \<open><root><a/><a/></root>\<close> the path \<open>root[1]/a[2]\<close> locates
  the second \<open>a\<close>.
\<close>

lemma processXML_second_sibling:
  "processXML [OpenTagStart 1 6, OpenTag ''root'' 1 6, OpenTagStart 1 9, OpenTag ''a'' 1 10,
               CloseTag, OpenTagStart 1 13, OpenTag ''a'' 1 14, CloseTag, CloseTag]
              ''root[1]/a[2]'' = Inr (0, 12, 0, 13)"
  by code_simp

text \<open>
  C1. The claim does not hold of \<open>processXML\<close>; the document \<open><r><a/><b><a/></b></r>\<close> shows
  it. The inner \<open>a\<close> is the first child of \<open>b\<close> and has no closed sibling, so its indexed path
  is \<open>r[1]/b[1]/a[1]\<close>, as \<open>sibling_tags\<close> computes it. \<open>processXML\<close> pushes \<open>a[2]\<close> for it,
  because \<open>lastTag\<close> still holds the \<open>a[1]\<close> that was closed before \<open>b\<close> was opened: the path
  \<open>r[1]/b[1]/a[1]\<close> finds nothing, and \<open>r[1]/b[1]/a[2]\<close>, which no tag has, finds the inner
  \<open>a\<close>. For \<open>r[1]/*\<close> the first matching tag in document order is the outer \<open>a\<close>, while
  \<open>processXML\<close> returns the range of \<open>b\<close>, the last one. And for \<open>r[1]\<close> the tag \<open><r>\<close> goes
  from column 0 to column 3, while the range returned starts and ends at column 2: the start
  is taken at \<open>opentagstart\<close>, after the name, not at the \<open><\<close>, and the end is the column of
  the \<open>>\<close>, not the one after it.
\<close>

theorem processXML_index_kept_across_depths:
  "processXML doc_r_a_b_a ''r[1]/b[1]/a[1]'' = Inr (-1, -1, -1, -1)
   \<and> processXML doc_r_a_b_a ''r[1]/b[1]/a[2]'' = Inr (0, 12, 0, 13)
   \<and> first_match (xpath_segments ''r[1]/b[1]/a[1]'') (sibling_tags doc_r_a_b_a) = (0, 12, 0, 13)
   \<and> first_match (xpath_segments ''r[1]/b[1]/a[2]'') (sibling_tags doc_r_a_b_a) = (-1, -1, -1, -1)
   \<and> processXML doc_r_a_b_a ''r[1]/*'' = Inr (0, 9, 0, 9)
   \<and> first_match (xpath_segments ''r[1]/*'') (sibling_tags doc_r_a_b_a) = (0, 5, 0, 6)
   \<and> processXML doc_r_a_b_a ''r[1]'' = Inr (0, 2, 0, 2)"
proof -
  have "processXML doc_r_a_b_a ''r[1]/b[1]/a[1]'' = Inr (-1, -1, -1, -1)" by code_simp
  moreover have "processXML doc_r_a_b_a ''r[1]/b[1]/a[2]'' = Inr (0, 12, 0, 13)" by code_simp
  moreover have "first_match (xpath_segments ''r[1]/b[1]/a[1]'') (sibling_tags doc_r_a_b_a)
                 = (0, 12, 0, 13)" by code_simp
  moreover have "first_match (xpath_segments ''r[1]/b[1]/a[2]'') (sibling_tags doc_r_a_b_a)
                 = (-1, -1, -1, -1)" by code_simp
  moreover have "processXML doc_r_a_b_a ''r[1]/*'' = Inr (0, 9, 0, 9)" by code_simp
  moreover have "first_match (xpath_segments ''r[1]/*'') (sibling_tags doc_r_a_b_a) = (0, 5, 0, 6)"
    by code_simp
  moreover have "processXML doc_r_a_b_a ''r[1]'' = Inr (0, 2, 0, 2)" by code_simp
  ultimately show ?thesis by (intro conjI)
qed

text \<open>
  C10. For every sequence of tokenizer events, errors included, and every path expression,
  \<open>processXML\<close> throws nothing and returns four numbers. It owes this to its \<open>error\<close>
  listener: on the same events a pass without that listener throws at the first error. The
  errors have no effect on the result. With \<open>indexed_tags\<close> listing every start tag with
  the indexed path that the pass gives it, the result is the range of a tag whose indexed
  path matches the target, and it is \<open>(-1, -1, -1, -1)\<close> when no tag's indexed path matches.
  (Tag names are free of line breaks, as the tokenizer delivers them.)
\<close>

theorem processXML_errors_swallowed_sentinel:
  "(\<exists>r. processXML evs e = Inr r)
   \<and> (list_ex is_error_event evs \<longrightarrow>
        (\<exists>m s. px_write False (xpath_segments e) evs px_init = Thrown m s))
   \<and> processXML (filter (\<lambda>ev. \<not> is_error_event ev) evs) e = processXML evs e
   \<and> (list_all plain_event evs \<longrightarrow>
        processXML evs e = Inr (last_match (xpath_segments e) (indexed_tags evs)))
   \<and> (list_all plain_event evs
        \<and> list_all (\<lambda>tg. \<not> path_matches (xpath_segments e) (fst tg)) (indexed_tags evs) \<longrightarrow>
        processXML evs e = Inr (-1, -1, -1, -1))"
proof -
  have returns: "\<exists>r. processXML evs e = Inr r" unfolding processXML_found by (rule exI) (rule refl)
  have throws: "list_ex is_error_event evs \<longrightarrow>
        (\<exists>m s. px_write False (xpath_segments e) evs px_init = Thrown m s)"
    using px_write_no_listener [of evs "xpath_segments e" px_init] by blast
  have ignored: "processXML (filter (\<lambda>ev. \<not> is_error_event ev) evs) e = processXML evs e"
    by (simp add: processXML_found px_run_def px_run_errors_ignored)
  have ranged: "list_all plain_event evs \<longrightarrow>
        processXML evs e = Inr (last_match (xpath_segments e) (indexed_tags evs))"
    by (simp add: processXML_found px_run_indexed)
  have sentinel: "list_all plain_event evs
        \<and> list_all (\<lambda>tg. \<not> path_matches (xpath_segments e) (fst tg)) (indexed_tags evs) \<longrightarrow>
        processXML evs e = Inr (-1, -1, -1, -1)"
    by (simp add: processXML_found px_run_indexed last_match_none)
  from returns throws ignored ranged sentinel show ?thesis by (intro conjI)
qed

theorem processXML_errors_swallowed_sentinel_witness:
  "list_ex is_error_event malformed_events \<and> list_all plain_event malformed_events
   \<and> list_all (\<lambda>tg. \<not> path_matches (xpath_segments ''r[1]/b[1]'') (fst tg))
        (indexed_tags malformed_events)
   \<and> processXML malformed_events ''r[1]/b[1]'' = Inr (-1, -1, -1, -1)
   \<and> (\<exists>m s. px_write False (xpath_segments ''r[1]/b[1]'') malformed_events px_init = Thrown m s)"
proof -
  have er: "list_ex is_error_event malformed_events" by code_simp
  have pl: "list_all plain_event malformed_events" by code_simp
  have nm: "list_all (\<lambda>tg. \<not> path_matches (xpath_segments ''r[1]/b[1]'') (fst tg))
              (indexed_tags malformed_events)" by code_simp
  note t = processXML_errors_swallowed_sentinel [of malformed_events "''r[1]/b[1]''"]
  from t pl nm have r: "processXML malformed_events ''r[1]/b[1]'' = Inr (-1, -1, -1, -1)"
    by blast
  from t er have w: "\<exists>m s. px_write False (xpath_segments ''r[1]/b[1]'') malformed_events px_init
                       = Thrown m s"
    by blast
  from er pl nm r w show ?thesis by (intro conjI)
qed

section \<open>Proofs: the Grammar Cache\<close>

lemma select_schema_record:
  "select_schema xmlURI schema c = (c1, isNew) \<Longrightarrow>
     \<exists>r. grammarStore c1 xmlURI = Some r \<and> rngURI r = Some schema
         \<and> (isNew \<longrightarrow> grammar r = None) \<and> compilations c1 = compilations c"
  by (auto simp: select_schema_def Let_def split: if_splits option.splits)

lemma select_schema_same:
  assumes "grammarStore c xmlURI = Some r" and "rngURI r = Some schema"
  shows "select_schema xmlURI schema c = (c, False)"
proof -
  have "(grammarStore c)(xmlURI \<mapsto> r) = grammarStore c" using assms(1) by (rule map_upd_triv)
  with assms show ?thesis by (simp add: select_schema_def)
qed

lemma resolve_result:
  "\<exists>c1 r. resolve compile xmlURI schema c =
            Inr (c1, stored_grammar c1 xmlURI)
        \<and> grammarStore c1 xmlURI = Some r \<and> rngURI r = Some schema
        \<and> (compilations c1 = compilations c \<or> compilations c1 = compilations c @ [schema])
        \<and> (stored_grammar c1 xmlURI = None \<longrightarrow> compile schema = None)"
proof -
  obtain c0 isNew where sel: "select_schema xmlURI schema c = (c0, isNew)"
    by (cases "select_schema xmlURI schema c")
  from select_schema_record [OF sel] obtain r where r: "grammarStore c0 xmlURI = Some r"
    "rngURI r = Some schema" "isNew \<longrightarrow> grammar r = None" "compilations c0 = compilations c"
    by blast
  show ?thesis
    unfolding resolve_def sel load_grammar_def stored_grammar_def using r
    by (auto split: option.splits)
qed

lemma resolve_again:
  assumes "grammarStore c xmlURI = Some r" and "rngURI r = Some schema"
  shows "resolve compile xmlURI schema c =
           (case grammar r of
              Some g \<Rightarrow> Inr (c, Some g)
            | None \<Rightarrow>
                (case compile schema of
                   None \<Rightarrow> Inr (c\<lparr> compilations := compilations c @ [schema] \<rparr>, None)
                 | Some g \<Rightarrow>
                     Inr (c\<lparr> grammarStore := (grammarStore c)(xmlURI \<mapsto> r\<lparr> grammar := Some g \<rparr>),
                            compilations := compilations c @ [schema] \<rparr>, Some g)))"
proof -
  have same: "(grammarStore c)(xmlURI \<mapsto> r) = grammarStore c" using assms(1) by (rule map_upd_triv)
  show ?thesis
  proof (cases "grammar r")
    case None
    with assms show ?thesis
      by (simp add: resolve_def select_schema_same load_grammar_def split: option.splits)
  next
    case (Some g)
    then have "r\<lparr> grammar := Some g \<rparr> = r" by simp
    then have "c\<lparr> grammarStore := (grammarStore c)(xmlURI \<mapsto> r\<lparr> grammar := Some g \<rparr>) \<rparr> = c"
      using same by simp
    with Some assms show ?thesis
      by (simp add: resolve_def select_schema_same load_grammar_def)
  qed
qed

text \<open>
  C3 (as amended). For every document identity and schema reference, a validation leaves a
  record with that reference, having called the compiler at most once; a second validation
  with the same pair calls the compiler again exactly when the first one left the automaton
  unset, which it does only when compilation failed. After a successful compilation the
  second validation returns the cached automaton without compiling; after a failed one the
  automaton stays unset and compilation is retried.
\<close>

theorem resolve_twice_compiles_again_iff_unset:
  "\<exists>c1 g1 c2 g2.
     resolve compile xmlURI schema c = Inr (c1, g1)
     \<and> resolve compile xmlURI schema c1 = Inr (c2, g2)
     \<and> g1 = stored_grammar c1 xmlURI
     \<and> (compilations c1 = compilations c \<or> compilations c1 = compilations c @ [schema])
     \<and> (g1 = None \<longrightarrow> compile schema = None)
     \<and> compilations c2 = compilations c1 @ (if g1 = None then [schema] else [])
     \<and> (g1 \<noteq> None \<longrightarrow> g2 = g1 \<and> c2 = c1)"
proof -
  from resolve_result [of compile xmlURI schema c]
  obtain c1 r where first: "resolve compile xmlURI schema c = Inr (c1, stored_grammar c1 xmlURI)"
    and rec: "grammarStore c1 xmlURI = Some r" "rngURI r = Some schema"
    and calls: "compilations c1 = compilations c \<or> compilations c1 = compilations c @ [schema]"
    and failed: "stored_grammar c1 xmlURI = None \<longrightarrow> compile schema = None"
    by (elim exE conjE)
  have g1: "stored_grammar c1 xmlURI = grammar r" using rec by (simp add: stored_grammar_def)
  show ?thesis
  proof (cases "grammar r")
    case None
    with failed g1 have cf: "compile schema = None" by simp
    from resolve_again [OF rec, of compile] None cf
    have "resolve compile xmlURI schema c1 = Inr (c1\<lparr> compilations := compilations c1 @ [schema] \<rparr>, None)"
      by simp
    with first calls failed g1 None show ?thesis by simp
  next
    case (Some g)
    from resolve_again [OF rec, of compile] Some
    have "resolve compile xmlURI schema c1 = Inr (c1, Some g)" by simp
    with first calls failed g1 Some show ?thesis by simp
  qed
qed

theorem resolve_twice_compiles_again_iff_unset_witness:
  "compilations (cache_after always_compiles ''file:///a.xml'' ''file:///s.rng''
      (cache_after always_compiles ''file:///a.xml'' ''file:///s.rng'' empty_cache))
   = [''file:///s.rng'']"
proof -
  from resolve_twice_compiles_again_iff_unset
         [of always_compiles "''file:///a.xml''" "''file:///s.rng''" empty_cache]
  obtain c1 g1 c2 g2 where
    r1: "resolve always_compiles ''file:///a.xml'' ''file:///s.rng'' empty_cache = Inr (c1, g1)"
    and r2: "resolve always_compiles ''file:///a.xml'' ''file:///s.rng'' c1 = Inr (c2, g2)"
    and calls: "compilations c1 = compilations (empty_cache :: nat cache)
                \<or> compilations c1 = compilations (empty_cache :: nat cache) @ [''file:///s.rng'']"
    and failed: "g1 = None \<longrightarrow> always_compiles ''file:///s.rng'' = None"
    and second: "compilations c2 = compilations c1 @ (if g1 = None then [''file:///s.rng''] else [])"
    by (elim exE conjE)
  from failed have g1: "g1 \<noteq> None" by (auto simp: always_compiles_def)
  have c1: "compilations c1 = [''file:///s.rng'']"
    using r1 by (auto simp: resolve_def select_schema_def load_grammar_def empty_cache_def
                            always_compiles_def)
  from r1 r2 second g1 c1 show ?thesis by (simp add: cache_after_def)
qed

text \<open>
  As stated, with at most one compilation for two resolutions of the same pair, the claim
  fails for a compiler that cannot parse the schema: both validations call it.
\<close>

theorem resolve_twice_failed_compilation_counterexample:
  "compilations (cache_after never_compiles ''file:///a.xml'' ''file:///s.rng''
      (cache_after never_compiles ''file:///a.xml'' ''file:///s.rng'' empty_cache))
   = [''file:///s.rng'', ''file:///s.rng'']"
  by (simp add: cache_after_def resolve_def select_schema_def load_grammar_def empty_cache_def
                never_compiles_def)

section \<open>Proofs: the Validation Run\<close>

subsection \<open>What \<open>fireEvent\<close> and \<open>flushTextBuf\<close> change\<close>

lemma report_errors_keeps:
  "trace (state_of (report_errors doc pos errs s)) = trace s
   \<and> resolver (state_of (report_errors doc pos errs s)) = resolver s
   \<and> tagStack (state_of (report_errors doc pos errs s)) = tagStack s
   \<and> textBuf (state_of (report_errors doc pos errs s)) = textBuf s
   \<and> entities (state_of (report_errors doc pos errs s)) = entities s
   \<and> walker (state_of (report_errors doc pos errs s)) = walker s"
proof (induction errs arbitrary: s)
  case Nil
  show ?case by simp
next
  case (Cons err errs)
  show ?case
  proof (cases "tag_start doc (int (fst pos) - 1) (int (snd pos))")
    case (Inl m)
    then show ?thesis by (simp add: Let_def)
  next
    case (Inr sc)
    then show ?thesis using Cons.IH by (simp add: Let_def)
  qed
qed

lemma fireEvent_keeps:
  "trace (state_of (fireEvent A doc pos ev s)) = trace s @ [Fire ev]
   \<and> resolver (state_of (fireEvent A doc pos ev s)) = resolver s
   \<and> tagStack (state_of (fireEvent A doc pos ev s)) = tagStack s
   \<and> textBuf (state_of (fireEvent A doc pos ev s)) = textBuf s
   \<and> entities (state_of (fireEvent A doc pos ev s)) = entities s"
proof (cases "fire A (walker s) (resolver s) ev")
  case (Pair w ret)
  show ?thesis
  proof (cases ret)
    case None
    with Pair show ?thesis by (simp add: fireEvent_def)
  next
    case (Some errs)
    with Pair show ?thesis by (simp add: fireEvent_def report_errors_keeps)
  qed
qed

lemmas fireEvent_resolver = fireEvent_keeps [THEN conjunct2, THEN conjunct1]
lemmas fireEvent_tagStack = fireEvent_keeps [THEN conjunct2, THEN conjunct2, THEN conjunct1]
lemmas fireEvent_textBuf = fireEvent_keeps [THEN conjunct2, THEN conjunct2, THEN conjunct2, THEN conjunct1]
lemmas fireEvent_entities = fireEvent_keeps [THEN conjunct2, THEN conjunct2, THEN conjunct2, THEN conjunct2]



lemma flushTextBuf_Thrown_textBuf:
  "flushTextBuf A doc pos s = Thrown m s' \<Longrightarrow> textBuf s' = textBuf s"
  using fireEvent_textBuf [of A doc pos "TextEvent (textBuf s)" s]
  by (cases "fireEvent A doc pos (TextEvent (textBuf s)) s")
     (auto simp: flushTextBuf_def split: if_splits)

subsection \<open>The start tag\<close>
















subsection \<open>The range of an automaton error\<close>

lemma scan_back_nearest:
  "0 \<le> scan_back t n \<and> scan_back t n \<le> int n
   \<and> (\<forall>j. scan_back t n < int j \<and> j \<le> n \<and> j < length t \<longrightarrow> t ! j \<noteq> CHR ''<'')
   \<and> (scan_back t n \<noteq> 0 \<longrightarrow> nat (scan_back t n) < length t \<and> t ! nat (scan_back t n) = CHR ''<'')"
proof (induction n)
  case 0
  show ?case by simp
next
  case (Suc n)
  show ?case
  proof (cases "Suc n < length t \<and> t ! Suc n = CHR ''<''")
    case True
    have "nat (1 + int n) = Suc n" by simp
    with True show ?thesis by auto
  next
    case False
    then have eq: "scan_back t (Suc n) = scan_back t n" by auto
    have "\<forall>j. scan_back t n < int j \<and> j \<le> Suc n \<and> j < length t \<longrightarrow> t ! j \<noteq> CHR ''<''"
    proof (intro allI impI)
      fix j assume j: "scan_back t n < int j \<and> j \<le> Suc n \<and> j < length t"
      show "t ! j \<noteq> CHR ''<''"
      proof (cases "j = Suc n")
        case True
        with False j show ?thesis by simp
      next
        case False
        with j have "j \<le> n" by simp
        with j Suc.IH show ?thesis by blast
      qed
    qed
    with Suc.IH show ?thesis unfolding eq by simp
  qed
qed

lemma start_column_nearest:
  "0 \<le> start_column t c \<and> start_column t c \<le> max 0 c
   \<and> (\<forall>j. start_column t c < int j \<and> int j < c \<and> j < length t \<longrightarrow> t ! j \<noteq> CHR ''<'')
   \<and> ((\<exists>i<length t. int i < c \<and> t ! i = CHR ''<'') \<longrightarrow>
        nat (start_column t c) < length t \<and> start_column t c < c
        \<and> t ! nat (start_column t c) = CHR ''<'')
   \<and> ((\<forall>i<length t. int i < c \<longrightarrow> t ! i \<noteq> CHR ''<'') \<longrightarrow> start_column t c = 0)"
proof (cases "min (c - 1) (int (length t) - 1) < 0")
  case True
  then have sc: "start_column t c = 0" by (simp add: start_column_def Let_def)
  from True have "\<And>i. i < length t \<Longrightarrow> \<not> int i < c" by (auto simp: min_def split: if_splits)
  with sc show ?thesis by auto
next
  case False
  define n where "n = nat (min (c - 1) (int (length t) - 1))"
  from False have sc: "start_column t c = scan_back t n"
    by (simp add: start_column_def Let_def n_def)
  from False have pos: "0 < length t" "0 < c" by (auto simp: min_def split: if_splits)
  from pos have "int n = min (c - 1) (int (length t) - 1)" by (simp add: n_def)
  with pos have n: "int n \<le> c - 1" "n < length t" by linarith+
  from pos have "int n = min (c - 1) (int (length t) - 1)" by (simp add: n_def)
  then have cover: "\<And>j. int j < c \<Longrightarrow> j < length t \<Longrightarrow> j \<le> n"
    by linarith
  note sb = scan_back_nearest [of t n]
  have a: "0 \<le> scan_back t n \<and> scan_back t n \<le> max 0 c" using sb n by simp
  have b: "\<forall>j. scan_back t n < int j \<and> int j < c \<and> j < length t \<longrightarrow> t ! j \<noteq> CHR ''<''"
    using sb cover by blast
  have d: "(\<exists>i<length t. int i < c \<and> t ! i = CHR ''<'') \<longrightarrow>
        nat (scan_back t n) < length t \<and> scan_back t n < c \<and> t ! nat (scan_back t n) = CHR ''<''"
  proof
    assume "\<exists>i<length t. int i < c \<and> t ! i = CHR ''<''"
    then obtain i where i: "i < length t" "int i < c" "t ! i = CHR ''<''" by blast
    show "nat (scan_back t n) < length t \<and> scan_back t n < c \<and> t ! nat (scan_back t n) = CHR ''<''"
    proof (cases "scan_back t n = 0")
      case True
      with b i have "\<not> 0 < int i" by auto
      then have "i = 0" by simp
      with i True show ?thesis by simp
    next
      case False
      with sb n show ?thesis by auto
    qed
  qed
  have e: "(\<forall>i<length t. int i < c \<longrightarrow> t ! i \<noteq> CHR ''<'') \<longrightarrow> scan_back t n = 0"
  proof
    assume none: "\<forall>i<length t. int i < c \<longrightarrow> t ! i \<noteq> CHR ''<''"
    show "scan_back t n = 0"
    proof (rule ccontr)
      assume nz: "scan_back t n \<noteq> 0"
      with sb have "nat (scan_back t n) < length t" "t ! nat (scan_back t n) = CHR ''<''" by simp_all
      moreover from sb n nz have "int (nat (scan_back t n)) < c" by simp
      ultimately show False using none by blast
    qed
  qed
  from a b d e show ?thesis unfolding sc by blast
qed

lemma report_errors_found_line:
  assumes "tag_start doc (int (fst pos) - 1) (int (snd pos)) = Inr sc"
  shows "report_errors doc pos errs s =
           Done (s\<lparr> diagnostics := diagnostics s @
                    map (\<lambda>err. \<lparr> range_d = (int (fst pos) - 1, sc, int (fst pos) - 1, int (snd pos)),
                                 message = error_message err \<rparr>) errs \<rparr>)"
proof (induction errs arbitrary: s)
  case Nil
  show ?case by simp
next
  case (Cons err errs)
  show ?case using assms by (simp add: Cons.IH Let_def)
qed

text \<open>
  C7. For every transition on which the automaton reports errors, with the document open and
  holding the tokenizer's current line: every error gets one diagnostic; its start and end
  line are the tokenizer's line (counted from 0), its end column is the tokenizer's column,
  and its start column is the position of the nearest \<open><\<close> in the line's text before the
  tokenizer's column, or 0 if there is none.
\<close>

theorem automaton_error_range:
  assumes "fire A (walker s) (resolver s) ev = (w, Some errs)"
    and "lineAt lines (int line - 1) = Some lineText"
  shows "\<exists>s' startColumn.
           fireEvent A (Some lines) (line, column) ev s = Done s'
           \<and> diagnostics s' = diagnostics s @
                map (\<lambda>err. \<lparr> range_d = (int line - 1, startColumn, int line - 1, int column),
                             message = error_message err \<rparr>) errs
           \<and> 0 \<le> startColumn \<and> startColumn \<le> int column
           \<and> (\<forall>j. startColumn < int j \<and> j < column \<and> j < length lineText \<longrightarrow>
                  lineText ! j \<noteq> CHR ''<'')
           \<and> ((\<exists>i<length lineText. i < column \<and> lineText ! i = CHR ''<'') \<longrightarrow>
                 nat startColumn < length lineText \<and> startColumn < int column
                 \<and> lineText ! nat startColumn = CHR ''<'')
           \<and> ((\<forall>i<length lineText. i < column \<longrightarrow> lineText ! i \<noteq> CHR ''<'') \<longrightarrow> startColumn = 0)"
proof -
  let ?sc = "start_column lineText (int column)"
  have ts: "tag_start (Some lines) (int (fst (line, column)) - 1) (int (snd (line, column))) = Inr ?sc"
    using assms(2) by (simp add: tag_start_def)
  have "fireEvent A (Some lines) (line, column) ev s =
          Done (s\<lparr> walker := w, trace := trace s @ [Fire ev], error := ERR_VALID,
                   errorCount := errorCount s + length errs,
                   diagnostics := diagnostics s @
                     map (\<lambda>err. \<lparr> range_d = (int line - 1, ?sc, int line - 1, int column),
                                  message = error_message err \<rparr>) errs \<rparr>)"
    using assms(1) by (simp add: fireEvent_def report_errors_found_line [OF ts, simplified])
  moreover note start_column_nearest [of lineText "int column"]
  ultimately show ?thesis by auto
qed

theorem automaton_error_range_witness:
  "fire root_automaton (walker (init_state False [])) (resolver (init_state False []))
        (EnterStartTag [] ''a'')
     = (False, Some [\<lparr> err_msg = ''tag not allowed here'', err_names = [(''a'', [])] \<rparr>])
   \<and> lineAt two_lines (int 2 - 1) = Some ''  <a b=1>''
   \<and> (\<exists>s'. fireEvent root_automaton (Some two_lines) (2, 9) (EnterStartTag [] ''a'')
                (init_state False []) = Done s'
          \<and> map range_d (diagnostics s') = [(1, 2, 1, 9)])"
proof -
  have f: "fire root_automaton (walker (init_state False [])) (resolver (init_state False []))
             (EnterStartTag [] ''a'')
           = (False, Some [\<lparr> err_msg = ''tag not allowed here'', err_names = [(''a'', [])] \<rparr>])"
    by (simp add: root_automaton_def init_state_def)
  have l: "lineAt two_lines (int 2 - 1) = Some ''  <a b=1>''"
    by (simp add: lineAt_def two_lines_def)
  from automaton_error_range [OF f l, of 9]
  obtain s' where d: "fireEvent root_automaton (Some two_lines) (2, 9) (EnterStartTag [] ''a'')
                        (init_state False []) = Done s'"
    by blast
  have "map range_d (diagnostics (state_of (fireEvent root_automaton (Some two_lines) (2, 9)
          (EnterStartTag [] ''a'') (init_state False [])))) = [(1, 2, 1, 9)]"
    by code_simp
  with d have "fireEvent root_automaton (Some two_lines) (2, 9) (EnterStartTag [] ''a'')
                 (init_state False []) = Done s'
               \<and> map range_d (diagnostics s') = [(1, 2, 1, 9)]" by simp
  then have "\<exists>s'. fireEvent root_automaton (Some two_lines) (2, 9) (EnterStartTag [] ''a'')
                 (init_state False []) = Done s'
               \<and> map range_d (diagnostics s') = [(1, 2, 1, 9)]" by (rule exI)
  with f l show ?thesis by (intro conjI)
qed

subsection \<open>The end of the run\<close>

lemma feed_append:
  "feed A doc (pre @ rest) s =
     (case feed A doc pre s of
        Completed s1 \<Rightarrow> feed A doc rest s1
      | Aborted pos m s1 \<Rightarrow> Aborted pos m s1)"
proof (induction pre arbitrary: s)
  case Nil
  show ?case by simp
next
  case (Cons pt pre)
  obtain pos tok where pt: "pt = (pos, tok)" by (cases pt)
  show ?case
    by (cases "handle A doc pos tok s") (simp_all add: pt Cons.IH)
qed

lemma try_block_aborted:
  assumes "feed A doc toks s = Aborted pos m s1"
  shows "try_block A doc toks s = catch_block pos m s1"
    and "error (try_block A doc toks s) = ERR_WELLFORM"
    and "dispatch (error (try_block A doc toks s)) = not_well_formed"
  using assms by (simp_all add: try_block_def catch_block_def not_well_formed_def)

text \<open>
  C5 (as amended). Whenever the tokenizer fails, at any point of a Validation Run, the run
  aborts at once: the tokens after the failure and the end-of-input check have no effect, no
  further call reaches the automaton, the run is classified \<open>MALFORMED\<close>, and exactly one
  diagnostic is added, after the diagnostics the automaton has produced so far. Its range
  runs from column 0 to the tokenizer's current column on the tokenizer's current line; and
  for this classification the Constraint Engine is not invoked.
\<close>

theorem tokenizer_failure_aborts:
  assumes "feed A doc pre s = Completed s1"
  shows "try_block A doc (pre @ (pos, Fail m) # rest) s = catch_block pos m s1
         \<and> error (try_block A doc (pre @ (pos, Fail m) # rest) s) = ERR_WELLFORM
         \<and> errorCount (try_block A doc (pre @ (pos, Fail m) # rest) s) = errorCount s1 + 1
         \<and> diagnostics (try_block A doc (pre @ (pos, Fail m) # rest) s) =
             diagnostics s1 @
               [\<lparr> range_d = (int (fst pos) - 1, 0, int (fst pos) - 1, int (snd pos)), message = m \<rparr>]
         \<and> trace (try_block A doc (pre @ (pos, Fail m) # rest) s) = trace s1
         \<and> dispatch (error (try_block A doc (pre @ (pos, Fail m) # rest) s)) = not_well_formed"
proof -
  have "feed A doc (pre @ (pos, Fail m) # rest) s = Aborted pos m s1"
    using assms by (simp add: feed_append handle_def)
  then have "try_block A doc (pre @ (pos, Fail m) # rest) s = catch_block pos m s1"
    by (rule try_block_aborted)
  then show ?thesis by (simp add: catch_block_def not_well_formed_def)
qed

theorem tokenizer_failure_aborts_witness:
  "(\<exists>s1. feed root_automaton (Some [''<a>'']) [((1, 3), Open a_tag)] (init_state False []) = Completed s1)
   \<and> errorType (validation_run root_automaton False [] (Some [''<a>''])
                  ([((1, 3), Open a_tag)] @ ((1, 3), Fail ''unclosed tag'') # [((9, 9), Close)]))
       = ERR_WELLFORM"
proof -
  have "case feed root_automaton (Some [''<a>'']) [((1, 3), Open a_tag)] (init_state False []) of
          Completed s1 \<Rightarrow> True | Aborted pos m s1 \<Rightarrow> False"
    by code_simp
  then obtain s1 where
    c: "feed root_automaton (Some [''<a>'']) [((1, 3), Open a_tag)] (init_state False []) = Completed s1"
    by (auto split: fed.splits)
  from tokenizer_failure_aborts [OF c, of "(1, 3)" "''unclosed tag''" "[((9, 9), Close)]"]
  have "error (try_block root_automaton (Some [''<a>''])
                  ([((1, 3), Open a_tag)] @ ((1, 3), Fail ''unclosed tag'') # [((9, 9), Close)])
                  (init_state False [])) = ERR_WELLFORM"
    by blast
  then have "errorType (validation_run root_automaton False [] (Some [''<a>''])
                  ([((1, 3), Open a_tag)] @ ((1, 3), Fail ''unclosed tag'') # [((9, 9), Close)]))
       = ERR_WELLFORM"
    by (simp add: validation_run_def Let_def)
  with c show ?thesis by blast
qed

text \<open>
  As stated, with exactly one diagnostic of zero or one column, the claim fails: for \<open><doc>\<close>
  left open the diagnostic spans columns 0 to 5, and for \<open><a>\<close> left open, where the automaton
  has reported the tag before, the run returns two diagnostics.
\<close>

theorem tokenizer_failure_range_counterexample:
  "map range_d (diagnostics_r (validation_run root_automaton False [] (Some [''<doc>''])
       [((1, 5), Open (element [] ''doc'' [])), ((1, 5), Fail ''unclosed tag'')]))
     = [(0, 0, 0, 5)]
   \<and> map range_d (diagnostics_r (validation_run root_automaton False [] (Some [''<a>''])
       [((1, 3), Open a_tag), ((1, 3), Fail ''unclosed tag'')]))
     = [(0, 0, 0, 3), (0, 0, 0, 3)]"
proof -
  have "map range_d (diagnostics_r (validation_run root_automaton False [] (Some [''<doc>''])
       [((1, 5), Open (element [] ''doc'' [])), ((1, 5), Fail ''unclosed tag'')]))
     = [(0, 0, 0, 5)]"
    by code_simp
  moreover have "map range_d (diagnostics_r (validation_run root_automaton False [] (Some [''<a>''])
       [((1, 3), Open a_tag), ((1, 3), Fail ''unclosed tag'')]))
     = [(0, 0, 0, 3), (0, 0, 0, 3)]"
    by code_simp
  ultimately show ?thesis by (rule conjI)
qed

text \<open>
  C2. When the token stream ends without a tokenizer failure and the automaton's
  end-of-input check reports errors, \<open>parse\<close> sets the classification to \<open>ERR_WELLFORM\<close>
  (\<open>MALFORMED\<close>), not to \<open>ERR_VALID\<close> (\<open>CONTENT_INVALID\<close>): the errors are counted, no
  diagnostic is added for them, and the Constraint Engine is not invoked.
\<close>

theorem end_of_input_errors_classified_wellform:
  assumes "feed A doc toks (init_state w ents) = Completed s"
    and "finish A (walker s) = Some errs"
  shows "errorType (validation_run A w ents doc toks) = ERR_WELLFORM
         \<and> errorCount_r (validation_run A w ents doc toks) = errorCount s + length errs
         \<and> diagnostics_r (validation_run A w ents doc toks) = diagnostics s
         \<and> dispatch (errorType (validation_run A w ents doc toks)) = not_well_formed"
  using assms
  by (simp add: validation_run_def try_block_def on_end_def Let_def not_well_formed_def)

theorem end_of_input_errors_classified_wellform_witness:
  "(\<exists>s. feed root_automaton (Some [''<a/>'']) [((1, 4), Open a_tag), ((1, 4), Close)]
            (init_state False []) = Completed s
        \<and> finish root_automaton (walker s)
            = Some [\<lparr> err_msg = ''tag required'', err_names = [(''doc'', [])] \<rparr>])
   \<and> errorType (validation_run root_automaton False [] (Some [''<a/>''])
                  [((1, 4), Open a_tag), ((1, 4), Close)]) = ERR_WELLFORM"
proof -
  let ?toks = "[((1, 4), Open a_tag), ((1, 4), Close)]"
  have "case feed root_automaton (Some [''<a/>'']) ?toks (init_state False []) of
          Completed s \<Rightarrow> finish root_automaton (walker s)
                           = Some [\<lparr> err_msg = ''tag required'', err_names = [(''doc'', [])] \<rparr>]
        | Aborted pos m s \<Rightarrow> False"
    by code_simp
  then obtain s where
    c: "feed root_automaton (Some [''<a/>'']) ?toks (init_state False []) = Completed s"
    and f: "finish root_automaton (walker s)
              = Some [\<lparr> err_msg = ''tag required'', err_names = [(''doc'', [])] \<rparr>]"
    by (auto split: fed.splits)
  from end_of_input_errors_classified_wellform [OF c f]
  have "errorType (validation_run root_automaton False [] (Some [''<a/>'']) ?toks) = ERR_WELLFORM"
    by blast
  with c f show ?thesis by blast
qed

subsection \<open>The end tag and the balance of scopes\<close>



lemma scan_entities_keeps:
  "trace (state_of (scan_entities doctype cleaned s)) = trace s
   \<and> resolver (state_of (scan_entities doctype cleaned s)) = resolver s
   \<and> tagStack (state_of (scan_entities doctype cleaned s)) = tagStack s
   \<and> textBuf (state_of (scan_entities doctype cleaned s)) = textBuf s
   \<and> diagnostics (state_of (scan_entities doctype cleaned s)) = diagnostics s"
proof (induction "length cleaned" arbitrary: cleaned s rule: less_induct)
  case less
  note unfold = scan_entities.simps [of doctype cleaned s]
  show ?case
  proof (cases "cleaned = []")
    case True
    with unfold show ?thesis by simp
  next
    case False
    show ?thesis
    proof (cases "entity_match cleaned")
      case None
      with False unfold show ?thesis by simp
    next
      case (Some m)
      obtain name v rest where m: "m = (name, v, rest)" by (cases m)
      show ?thesis
      proof (cases "map_of (entities s) name = None")
        case True
        from Some m have "length rest < length cleaned" by (simp add: entity_match_shorter)
        from less [OF this, of "s\<lparr> entities := (name, v) # entities s \<rparr>"]
        have ih: "trace (state_of (scan_entities doctype rest (s\<lparr> entities := (name, v) # entities s \<rparr>))) = trace s
          \<and> resolver (state_of (scan_entities doctype rest (s\<lparr> entities := (name, v) # entities s \<rparr>))) = resolver s
          \<and> tagStack (state_of (scan_entities doctype rest (s\<lparr> entities := (name, v) # entities s \<rparr>))) = tagStack s
          \<and> textBuf (state_of (scan_entities doctype rest (s\<lparr> entities := (name, v) # entities s \<rparr>))) = textBuf s
          \<and> diagnostics (state_of (scan_entities doctype rest (s\<lparr> entities := (name, v) # entities s \<rparr>))) = diagnostics s"
          by simp
        have "scan_entities doctype cleaned s =
                scan_entities doctype rest (s\<lparr> entities := (name, v) # entities s \<rparr>)"
          using unfold False Some m True by simp
        with ih show ?thesis by simp
      next
        case dup: False
        have "scan_entities doctype cleaned s = Thrown (''redefining entity: '' @ name) s"
          using unfold False Some m dup by simp
        then show ?thesis by simp
      qed
    qed
  qed
qed
















subsection \<open>Text\<close>

























subsection \<open>The doctype\<close>

lemma strip_head_first_line:
  assumes "CHR ''['' \<notin> set pre" and "\<not> list_ex is_line_term pre"
  shows "strip_head (pre @ CHR ''['' # r) = r"
proof -
  have "\<forall>c\<in>set pre. c \<noteq> CHR ''[''" using assms(1) by auto
  then have "dropWhile (\<lambda>c. c \<noteq> CHR ''['') (pre @ CHR ''['' # r) = CHR ''['' # r"
    and "takeWhile (\<lambda>c. c \<noteq> CHR ''['') (pre @ CHR ''['' # r) = pre"
    by (simp_all add: dropWhile_run takeWhile_run)
  with assms(2) show ?thesis by (simp add: strip_head_def)
qed

lemma strip_head_unchanged:
  assumes "CHR ''['' \<notin> set s \<or> list_ex is_line_term (takeWhile (\<lambda>c. c \<noteq> CHR ''['') s)"
  shows "strip_head s = s"
proof (cases "dropWhile (\<lambda>c. c \<noteq> CHR ''['') s")
  case Nil
  show ?thesis unfolding strip_head_def Nil by simp
next
  case (Cons b r)
  then have "dropWhile (\<lambda>c. c \<noteq> CHR ''['') s \<noteq> []" by simp
  then have "CHR ''['' \<in> set s" by (auto simp: dropWhile_eq_Nil_conv)
  with assms Cons show ?thesis by (simp add: strip_head_def)
qed

lemma strip_tail_one_line:
  "\<not> list_ex is_line_term b \<Longrightarrow> strip_tail b = takeWhile (\<lambda>c. c \<noteq> CHR '']'') b"
  by (induction b) (auto simp: list_ex_iff)

lemma strip_tail_last_line:
  assumes "a = [] \<or> is_line_term (last a)" and "\<not> list_ex is_line_term b"
  shows "strip_tail (a @ b) = a @ takeWhile (\<lambda>c. c \<noteq> CHR '']'') b"
  using assms(1)
proof (induction a)
  case Nil
  show ?case using assms(2) by (simp add: strip_tail_one_line)
next
  case (Cons c a)
  have brk: "list_ex is_line_term (a @ b) \<or> c \<noteq> CHR '']''"
  proof (cases "a = []")
    case True
    with Cons.prems have "is_line_term c" by simp
    then show ?thesis by (auto simp: is_line_term_def)
  next
    case False
    with Cons.prems have "is_line_term (last a)" by simp
    with False have "list_ex is_line_term a" by (auto simp: list_ex_iff)
    then show ?thesis by (auto simp: list_ex_iff)
  qed
  from Cons.prems have "a = [] \<or> is_line_term (last a)" by (cases "a = []") simp_all
  with Cons.IH brk show ?case by auto
qed

lemma scan_entities_empty: "scan_entities doctype [] s = Done s"
  by (subst scan_entities.simps) simp

lemma scan_entities_residue:
  assumes "cleaned \<noteq> []" and "entity_match cleaned = None"
  shows "scan_entities doctype cleaned s =
           Thrown (''unexpected construct in DOCTYPE: '' @ doctype)
                  (s\<lparr> errorCount := errorCount s + 1 \<rparr>)"
  by (subst scan_entities.simps) (simp add: assms)

lemma scan_entities_duplicate:
  assumes "cleaned \<noteq> []" and "entity_match cleaned = Some (name, v, rest)"
    and "map_of (entities s) name \<noteq> None"
  shows "scan_entities doctype cleaned s = Thrown (''redefining entity: '' @ name) s"
  by (subst scan_entities.simps) (simp add: assms)

lemma scan_entities_register:
  assumes "cleaned \<noteq> []" and "entity_match cleaned = Some (name, v, rest)"
    and "map_of (entities s) name = None"
  shows "scan_entities doctype cleaned s =
           scan_entities doctype rest (s\<lparr> entities := (name, v) # entities s \<rparr>)"
  by (subst scan_entities.simps) (simp add: assms)

lemma scan_entities_never_redefines:
  "map_of (entities s) n = Some v \<Longrightarrow>
     map_of (entities (state_of (scan_entities doctype cleaned s))) n = Some v"
proof (induction "length cleaned" arbitrary: cleaned s rule: less_induct)
  case less
  show ?case
  proof (cases "cleaned = []")
    case True
    with less.prems show ?thesis by (simp add: scan_entities_empty)
  next
    case False
    show ?thesis
    proof (cases "entity_match cleaned")
      case None
      with False less.prems show ?thesis by (simp add: scan_entities_residue)
    next
      case (Some m)
      obtain name v' rest where m: "m = (name, v', rest)" by (cases m)
      with Some have em: "entity_match cleaned = Some (name, v', rest)" by simp
      show ?thesis
      proof (cases "map_of (entities s) name = None")
        case True
        with less.prems have "n \<noteq> name" by auto
        with less.prems have keep: "map_of (entities (s\<lparr> entities := (name, v') # entities s \<rparr>)) n = Some v"
          by simp
        from em have "length rest < length cleaned" by (rule entity_match_shorter)
        from less.hyps [OF this keep] scan_entities_register [OF False em True, of doctype]
        show ?thesis by simp
      next
        case False2: False
        with False em less.prems show ?thesis by (simp add: scan_entities_duplicate)
      qed
    qed
  qed
qed

lemma starts_with_prefix: "starts_with pre s = prefix pre s"
proof
  assume "starts_with pre s"
  then have "take (length pre) s = pre" by (simp add: starts_with_def)
  then show "prefix pre s" using take_is_prefix [of "length pre" s] by simp
next
  assume "prefix pre s"
  then obtain r where "s = pre @ r" by (auto simp: prefix_def)
  then show "starts_with pre s" by (simp add: starts_with_def)
qed

lemma prefix_in_front:
  assumes "prefix p (u @ v)" and "length p \<le> length u"
  shows "prefix p u"
proof -
  from assms(1) obtain r where r: "u @ v = p @ r" by (auto simp: prefix_def)
  with assms(2) have "p = take (length p) u" by (metis append_eq_conv_conj take_append diff_is_0_eq take_0 append_Nil2)
  then show ?thesis using take_is_prefix [of "length p" u] by simp
qed

lemma find_close_unfold:
  "find_close l =
     (if prefix ''-->'' l then Some 3
      else (case l of [] \<Rightarrow> None | x # l' \<Rightarrow> map_option Suc (find_close l')))"
  by (cases l rule: find_close.cases) auto

lemma find_close_first:
  "\<not> sublist ''-->'' (c @ ''--'') \<Longrightarrow> find_close (c @ ''-->'' @ b) = Some (length c + 3)"
proof (induction c)
  case Nil
  show ?case by simp
next
  case (Cons x c)
  have np: "\<not> prefix ''-->'' ((x # c) @ ''-->'' @ b)"
  proof
    assume pr: "prefix ''-->'' ((x # c) @ ''-->'' @ b)"
    have eq: "(x # c) @ ''-->'' @ b = ((x # c) @ ''--'') @ (''>'' @ b)" by simp
    from pr have "prefix ''-->'' (((x # c) @ ''--'') @ (''>'' @ b))" unfolding eq .
    then have "prefix ''-->'' ((x # c) @ ''--'')" by (rule prefix_in_front) simp
    then have "sublist ''-->'' ((x # c) @ ''--'')" by (rule prefix_imp_sublist)
    with Cons.prems show False by simp
  qed
  from Cons.prems have "\<not> sublist ''-->'' (c @ ''--'')" by (simp add: sublist_Cons_right)
  with Cons.IH have ih: "find_close (c @ ''-->'' @ b) = Some (length c + 3)" by simp
  have "find_close ((x # c) @ ''-->'' @ b) = map_option Suc (find_close (c @ ''-->'' @ b))"
    using np by (subst find_close_unfold) (simp only: if_False list.case append_Cons)
  with ih show ?case by simp
qed

lemma find_close_none: "\<not> sublist ''-->'' l \<Longrightarrow> find_close l = None"
proof (induction l)
  case Nil
  show ?case by simp
next
  case (Cons x l)
  from Cons.prems have np: "\<not> prefix ''-->'' (x # l)" and "\<not> sublist ''-->'' l"
    by (simp_all add: sublist_Cons_right)
  with Cons.IH have "find_close l = None" by simp
  with np show ?case by (subst find_close_unfold) (simp only: if_False list.case option.map)
qed

lemma strip_from_skip: "strip_from (length p) (p @ s) = strip_from 0 s"
  by (induction p) simp_all

lemma strip_from_unfold:
  "strip_from 0 (c # cs) =
     (if prefix ''<!--'' (c # cs)
      then (case find_close (drop 3 cs) of
              Some n \<Rightarrow> strip_from (3 + n) cs
            | None \<Rightarrow> c # strip_from 0 cs)
      else c # strip_from 0 cs)"
proof -
  have "prefix ''<!--'' (c # cs) = (c = CHR ''<'' \<and> starts_with ''!--'' cs)"
    by (auto simp: starts_with_prefix)
  then show ?thesis by simp
qed

lemma strip_from_text:
  "\<not> sublist ''<!--'' (a @ ''<!-'') \<Longrightarrow> strip_from 0 (a @ ''<!--'' @ t) = a @ strip_from 0 (''<!--'' @ t)"
proof (induction a)
  case Nil
  show ?case by simp
next
  case (Cons x a)
  have np: "\<not> prefix ''<!--'' (x # a @ ''<!--'' @ t)"
  proof
    assume pr: "prefix ''<!--'' (x # a @ ''<!--'' @ t)"
    have eq: "x # a @ ''<!--'' @ t = ((x # a) @ ''<!-'') @ (''-'' @ t)" by simp
    from pr have "prefix ''<!--'' (((x # a) @ ''<!-'') @ (''-'' @ t))" unfolding eq .
    then have "prefix ''<!--'' ((x # a) @ ''<!-'')" by (rule prefix_in_front) simp
    then have "sublist ''<!--'' ((x # a) @ ''<!-'')" by (rule prefix_imp_sublist)
    with Cons.prems show False by simp
  qed
  from Cons.prems have "\<not> sublist ''<!--'' (a @ ''<!-'')" by (simp add: sublist_Cons_right)
  with Cons.IH have ih: "strip_from 0 (a @ ''<!--'' @ t) = a @ strip_from 0 (''<!--'' @ t)" by simp
  have "strip_from 0 ((x # a) @ ''<!--'' @ t) = x # strip_from 0 (a @ ''<!--'' @ t)"
    using np by (simp only: append_Cons strip_from_unfold if_False)
  with ih show ?case by simp
qed

lemma strip_comments_comment:
  assumes "\<not> sublist ''<!--'' (a @ ''<!-'')" and "\<not> sublist ''-->'' (c @ ''--'')"
  shows "strip_comments (a @ ''<!--'' @ c @ ''-->'' @ b) = a @ strip_comments b"
proof -
  let ?cs = "''!--'' @ c @ ''-->'' @ b"
  have p: "prefix ''<!--'' (CHR ''<'' # ?cs)" by simp
  have fc: "find_close (drop 3 ?cs) = Some (length c + 3)"
    using find_close_first [OF assms(2), of b] by simp
  have n: "3 + (length c + 3) = length (''!--'' @ c @ ''-->'')" by simp
  have l: "?cs = (''!--'' @ c @ ''-->'') @ b" by simp
  have sk: "strip_from (3 + (length c + 3)) ?cs = strip_from 0 b"
    by (subst n, subst l) (rule strip_from_skip)
  have "strip_from 0 (CHR ''<'' # ?cs) = strip_from 0 b"
    using p by (simp only: strip_from_unfold if_True fc option.case sk)
  then have "strip_from 0 (''<!--'' @ c @ ''-->'' @ b) = strip_from 0 b" by simp
  with strip_from_text [OF assms(1), of "c @ ''-->'' @ b"] show ?thesis
    by (simp add: strip_comments_def)
qed

lemma strip_comments_none:
  assumes "\<not> sublist ''<!--'' s \<or> \<not> sublist ''-->'' s"
  shows "strip_comments s = s"
  using assms
proof (induction s)
  case Nil
  show ?case by (simp add: strip_comments_def)
next
  case (Cons x s)
  from Cons.prems have rest: "\<not> sublist ''<!--'' s \<or> \<not> sublist ''-->'' s"
    by (auto simp: sublist_Cons_right)
  with Cons.IH have ih: "strip_from 0 s = s" by (simp add: strip_comments_def)
  show ?case
  proof (cases "prefix ''<!--'' (x # s)")
    case False
    then show ?thesis using ih by (simp only: strip_comments_def strip_from_unfold if_False)
  next
    case True
    then have "sublist ''<!--'' (x # s)" by (rule prefix_imp_sublist)
    with Cons.prems have nc: "\<not> sublist ''-->'' (x # s)" by blast
    have "sublist (drop 3 s) (x # s)"
      using sublist_drop [of 3 s] by (simp add: sublist_Cons_right)
    with nc have "\<not> sublist ''-->'' (drop 3 s)" using sublist_order.order_trans by blast
    then have "find_close (drop 3 s) = None" by (rule find_close_none)
    then show ?thesis using ih True by (simp only: strip_comments_def strip_from_unfold if_True option.case)
  qed
qed

lemma trim_core:
  assumes "list_all is_space ws1" and "list_all is_space ws2"
    and "core = [] \<or> (\<not> is_space (hd core) \<and> \<not> is_space (last core))"
  shows "trim (ws1 @ core @ ws2) = core"
proof (cases "core = []")
  case True
  have "\<forall>x\<in>set (ws1 @ ws2). is_space x" using assms(1,2) by (auto simp: list_all_iff)
  then have d: "dropWhile is_space (ws1 @ ws2) = []" by (simp only: dropWhile_eq_Nil_conv)
  show ?thesis unfolding True trim_def append_Nil d by simp
next
  case False
  with assms(3) have h: "\<not> is_space (hd core)" and l: "\<not> is_space (last core)" by simp_all
  from False obtain c cs where core: "core = c # cs" by (cases core) auto
  from False obtain bs z where core': "core = bs @ [z]" by (cases core rule: rev_cases) auto
  from h core have c: "\<not> is_space c" by simp
  from l core' have z: "\<not> is_space z" by simp
  have a: "dropWhile is_space (ws1 @ c # cs @ ws2) = c # cs @ ws2"
    using assms(1) c by (simp add: dropWhile_run list_all_iff)
  have "rev (core @ ws2) = rev ws2 @ z # rev bs" using core' by simp
  moreover have "dropWhile is_space (rev ws2 @ z # rev bs) = z # rev bs"
    using assms(2) z by (simp add: dropWhile_run list_all_iff)
  ultimately have "dropWhile is_space (rev (core @ ws2)) = z # rev bs" by simp
  with a core core' show ?thesis by (simp add: trim_def)
qed

lemma strip_tail_body:
  "CHR '']'' \<notin> set body \<Longrightarrow> \<not> list_ex is_line_term post \<Longrightarrow>
     strip_tail (body @ CHR '']'' # post) = body"
  by (induction body) auto

lemma cleaned_doctype_brackets:
  assumes "CHR ''['' \<notin> set pre" and "\<not> list_ex is_line_term pre"
    and "CHR '']'' \<notin> set body" and "\<not> list_ex is_line_term post"
  shows "cleaned_doctype (pre @ CHR ''['' # body @ CHR '']'' # post) = trim (strip_comments body)"
  using strip_head_first_line [OF assms(1,2), of "body @ CHR '']'' # post"]
        strip_tail_body [OF assms(3,4)]
  by (simp add: cleaned_doctype_def)

lemma not_space_gt: "\<not> is_space CHR ''>''"
  by (simp add: is_space_def)

lemma not_space_lt: "\<not> is_space CHR ''<''"
  by (simp add: is_space_def)

lemma not_space_quote: "q = CHR 0x27 \<or> q = CHR 0x22 \<Longrightarrow> \<not> is_space q"
  by (auto simp: is_space_def)

lemma dropWhile_spaces:
  assumes "list_all is_space ws" and "r = [] \<or> \<not> is_space (hd r)"
  shows "dropWhile is_space (ws @ r) = r" and "takeWhile is_space (ws @ r) = ws"
proof -
  from assms(1) have all: "\<forall>x\<in>set ws. is_space x" by (simp add: list_all_iff)
  show "dropWhile is_space (ws @ r) = r"
  proof (cases r)
    case Nil
    with all show ?thesis by (simp only: append_Nil2 dropWhile_eq_Nil_conv)
  next
    case (Cons c cs)
    with assms(2) have "\<not> is_space c" by simp
    with all Cons show ?thesis by (simp add: dropWhile_run)
  qed
  show "takeWhile is_space (ws @ r) = ws"
  proof (cases r)
    case Nil
    with all show ?thesis by (simp only: append_Nil2 takeWhile_eq_all_conv)
  next
    case (Cons c cs)
    with assms(2) have "\<not> is_space c" by simp
    with all Cons show ?thesis by (simp add: takeWhile_run)
  qed
qed

lemma find_value_found:
  assumes "q \<notin> set v" and "\<not> list_ex is_line_term v" and "list_all is_space ws"
  shows "find_value q (v @ q # ws @ CHR ''>'' # rest) = Some (v, rest)"
  using assms(1,2)
proof (induction v)
  case Nil
  have "dropWhile is_space (ws @ CHR ''>'' # rest) = CHR ''>'' # rest"
    using dropWhile_spaces(1) [OF assms(3), of "CHR ''>'' # rest"] by (simp add: not_space_gt)
  then show ?case by simp
next
  case (Cons c v)
  then have "c \<noteq> q" and "\<not> is_line_term c"
    and "find_value q (v @ q # ws @ CHR ''>'' # rest) = Some (v, rest)" by auto
  then show ?case by simp
qed

lemma find_value_line_break:
  "q \<notin> set v \<Longrightarrow> list_ex is_line_term v \<Longrightarrow> find_value q (v @ r) = None"
  by (induction v) auto

lemma find_value_sound:
  "find_value q r = Some (v, rest) \<Longrightarrow>
     \<exists>ws. r = v @ q # ws @ CHR ''>'' # rest \<and> list_all is_space ws \<and> \<not> list_ex is_line_term v"
proof (induction r arbitrary: v)
  case Nil
  then show ?case by simp
next
  case (Cons c cs)
  show ?case
  proof (cases "c = q \<and> (case dropWhile is_space cs of [] \<Rightarrow> False | g # _ \<Rightarrow> g = CHR ''>'')")
    case True
    with Cons.prems have v: "v = []" and rest: "rest = tl (dropWhile is_space cs)" by simp_all
    from True obtain t where d: "dropWhile is_space cs = CHR ''>'' # t"
      by (cases "dropWhile is_space cs") auto
    have "cs = takeWhile is_space cs @ dropWhile is_space cs" by simp
    with d rest have "cs = takeWhile is_space cs @ CHR ''>'' # rest" by simp
    moreover have "list_all is_space (takeWhile is_space cs)"
      by (auto simp: list_all_iff dest: set_takeWhileD)
    ultimately show ?thesis using True v by auto
  next
    case False
    with Cons.prems obtain v' where fv: "find_value q cs = Some (v', rest)" and v: "v = c # v'"
      and c: "\<not> is_line_term c"
      by (auto split: if_splits option.splits)
    from Cons.IH [OF fv] obtain ws where "cs = v' @ q # ws @ CHR ''>'' # rest"
      and "list_all is_space ws" and "\<not> list_ex is_line_term v'" by blast
    with v c show ?thesis by auto
  qed
qed

lemma entity_match_front:
  assumes w1: "w1 \<noteq> []" "list_all is_space w1"
    and n: "n \<noteq> []" "\<not> list_ex is_space n"
    and w2: "w2 \<noteq> []" "list_all is_space w2"
    and q: "q = CHR 0x27 \<or> q = CHR 0x22"
  shows "entity_match (''<!ENTITY'' @ w1 @ n @ w2 @ q # r4) =
           (case find_value q r4 of
              None \<Rightarrow> None
            | Some (v, rest) \<Rightarrow> Some (n, v, dropWhile is_space rest))"
proof -
  let ?R3 = "q # r4"
  let ?R2 = "w2 @ ?R3"
  let ?R1 = "n @ ?R2"
  let ?s = "''<!ENTITY'' @ w1 @ ?R1"
  have sw: "starts_with ''<!ENTITY'' ?s" by (simp add: starts_with_def)
  have d8: "drop 8 ?s = w1 @ ?R1" by simp
  from n obtain n0 n' where n0: "n = n0 # n'" "\<not> is_space n0" by (cases n) auto
  from w2 obtain a w2' where a: "w2 = a # w2'" "is_space a" by (cases w2) auto
  have hd1: "?R1 = [] \<or> \<not> is_space (hd ?R1)" using n0 by simp
  have t1: "takeWhile is_space (drop 8 ?s) = w1"
    unfolding d8 using w1(2) hd1 by (rule dropWhile_spaces(2))
  have r1: "dropWhile is_space (drop 8 ?s) = ?R1"
    unfolding d8 using w1(2) hd1 by (rule dropWhile_spaces(1))
  have nsp: "\<forall>x\<in>set n. \<not> is_space x" using n(2) by (simp add: list_ex_iff)
  have nm: "takeWhile (\<lambda>c. \<not> is_space c) ?R1 = n"
    unfolding a(1) append_Cons using nsp a(2) by (simp add: takeWhile_run)
  have r2: "dropWhile (\<lambda>c. \<not> is_space c) ?R1 = ?R2"
  proof -
    have "dropWhile (\<lambda>c. \<not> is_space c) (n @ a # w2' @ ?R3) = a # w2' @ ?R3"
      using nsp a(2) by (simp add: dropWhile_run)
    then show ?thesis by (simp add: a(1))
  qed
  have hd3: "?R3 = [] \<or> \<not> is_space (hd ?R3)" using not_space_quote [OF q] by simp
  have t2: "takeWhile is_space ?R2 = w2" using w2(2) hd3 by (rule dropWhile_spaces(2))
  have r3: "dropWhile is_space ?R2 = ?R3" using w2(2) hd3 by (rule dropWhile_spaces(1))
  have qq: "\<not> (q \<noteq> CHR 0x27 \<and> q \<noteq> CHR 0x22)" using q by blast
  have cond: "\<not> (w1 = [] \<or> n = [] \<or> w2 = [])" using w1(1) n(1) w2(1) by blast
  show ?thesis
    unfolding entity_match_def Let_def
    by (simp only: sw t1 r1 nm r2 t2 r3 qq cond not_True_eq_False not_False_eq_True if_True if_False
                   list.case)
qed

lemma entity_match_found:
  assumes "well_formed_decl d" and "rest = [] \<or> \<not> is_space (hd rest)"
  shows "entity_match (entity_decl d @ rest) = Some (decl_name d, decl_value d, rest)"
proof -
  from assms(1) have sh: "entity_shaped d" and qv: "decl_quote d \<notin> set (decl_value d)"
    by (simp_all add: well_formed_decl_def)
  from sh have w1: "decl_space1 d \<noteq> []" "list_all is_space (decl_space1 d)"
    and n: "decl_name d \<noteq> []" "\<not> list_ex is_space (decl_name d)"
    and w2: "decl_space2 d \<noteq> []" "list_all is_space (decl_space2 d)"
    and q: "decl_quote d = CHR 0x27 \<or> decl_quote d = CHR 0x22"
    and v: "\<not> list_ex is_line_term (decl_value d)"
    and w3: "list_all is_space (decl_space3 d)" and g: "list_all is_space (decl_gap d)"
    by (simp_all add: entity_shaped_def)
  let ?r4 = "decl_value d @ decl_quote d # decl_space3 d @ CHR ''>'' # (decl_gap d @ rest)"
  have s: "entity_decl d @ rest
             = ''<!ENTITY'' @ decl_space1 d @ decl_name d @ decl_space2 d @ decl_quote d # ?r4"
    by (simp add: entity_decl_def)
  have fv: "find_value (decl_quote d) ?r4 = Some (decl_value d, decl_gap d @ rest)"
    using qv v w3 by (rule find_value_found)
  have dr: "dropWhile is_space (decl_gap d @ rest) = rest"
    using g assms(2) by (rule dropWhile_spaces(1))
  show ?thesis
    unfolding s entity_match_front [OF w1 n w2 q] fv using dr by simp
qed

lemma entity_match_line_break:
  assumes "well_formed_decl d" and "decl_quote d \<notin> set v" and "list_ex is_line_term v"
  shows "entity_match (entity_decl (d\<lparr> decl_value := v \<rparr>) @ rest) = None"
proof -
  from assms(1) have sh: "entity_shaped d" by (simp add: well_formed_decl_def)
  then have w1: "decl_space1 d \<noteq> []" "list_all is_space (decl_space1 d)"
    and n: "decl_name d \<noteq> []" "\<not> list_ex is_space (decl_name d)"
    and w2: "decl_space2 d \<noteq> []" "list_all is_space (decl_space2 d)"
    and q: "decl_quote d = CHR 0x27 \<or> decl_quote d = CHR 0x22"
    by (simp_all add: entity_shaped_def)
  let ?r = "decl_quote d # decl_space3 d @ CHR ''>'' # (decl_gap d @ rest)"
  have s: "entity_decl (d\<lparr> decl_value := v \<rparr>) @ rest
             = ''<!ENTITY'' @ decl_space1 d @ decl_name d @ decl_space2 d @ decl_quote d # (v @ ?r)"
    by (simp add: entity_decl_def)
  have fv: "find_value (decl_quote d) (v @ ?r) = None"
    using assms(2,3) by (rule find_value_line_break)
  show ?thesis unfolding s entity_match_front [OF w1 n w2 q] fv by simp
qed

lemma entity_match_keyword: "\<not> prefix ''<!ENTITY'' s \<Longrightarrow> entity_match s = None"
  by (simp add: entity_match_def starts_with_prefix)

lemma entity_match_sound:
  assumes "entity_match s = Some (n, v, rest)"
  shows "\<exists>d. s = entity_decl d @ rest \<and> decl_name d = n \<and> decl_value d = v \<and> entity_shaped d
              \<and> (rest = [] \<or> \<not> is_space (hd rest))"
proof -
  let ?w1 = "takeWhile is_space (drop 8 s)"
  let ?r1 = "dropWhile is_space (drop 8 s)"
  let ?n = "takeWhile (\<lambda>c. \<not> is_space c) ?r1"
  let ?r2 = "dropWhile (\<lambda>c. \<not> is_space c) ?r1"
  let ?w2 = "takeWhile is_space ?r2"
  let ?r3 = "dropWhile is_space ?r2"
  have em: "(if \<not> starts_with ''<!ENTITY'' s then None
        else if ?w1 = [] \<or> ?n = [] \<or> ?w2 = [] then None
        else (case ?r3 of
                [] \<Rightarrow> None
              | q # r4 \<Rightarrow>
                  if q \<noteq> CHR 0x27 \<and> q \<noteq> CHR 0x22 then None
                  else (case find_value q r4 of
                          None \<Rightarrow> None
                        | Some (v, rest) \<Rightarrow> Some (?n, v, dropWhile is_space rest))))
       = Some (n, v, rest)"
    using assms unfolding entity_match_def Let_def .
  from em have sw: "starts_with ''<!ENTITY'' s"
    by (simp only: option.distinct split: if_splits)
  from em sw have cond: "\<not> (?w1 = [] \<or> ?n = [] \<or> ?w2 = [])"
    by (simp only: simp_thms if_False option.distinct split: if_splits)
  then have ne: "?w1 \<noteq> []" "?n \<noteq> []" "?w2 \<noteq> []" by blast+
  from em sw cond have em2: "(case ?r3 of
                [] \<Rightarrow> None
              | q # r4 \<Rightarrow>
                  if q \<noteq> CHR 0x27 \<and> q \<noteq> CHR 0x22 then None
                  else (case find_value q r4 of
                          None \<Rightarrow> None
                        | Some (v, rest) \<Rightarrow> Some (?n, v, dropWhile is_space rest)))
       = Some (n, v, rest)"
    by (simp only: not_True_eq_False if_False simp_thms)
  then obtain q r4 where r3: "?r3 = q # r4"
    by (cases ?r3) (simp_all only: list.case option.distinct)
  from em2 r3 obtain rest' where q: "q = CHR 0x27 \<or> q = CHR 0x22"
    and fv: "find_value q r4 = Some (v, rest')" and nn: "?n = n"
    and rest: "rest = dropWhile is_space rest'"
    by (cases "find_value q r4")
       (auto simp only: list.case option.case prod.case option.inject prod.inject option.distinct
             split: if_splits)
  from find_value_sound [OF fv] obtain w3 where r4: "r4 = v @ q # w3 @ CHR ''>'' # rest'"
    and w3: "list_all is_space w3" and vl: "\<not> list_ex is_line_term v" by blast
  let ?g = "takeWhile is_space rest'"
  let ?d = "\<lparr> decl_space1 = ?w1, decl_name = n, decl_space2 = ?w2, decl_quote = q,
              decl_value = v, decl_space3 = w3, decl_gap = ?g \<rparr>"
  have "s = take 8 s @ drop 8 s" by simp
  also have "take 8 s = ''<!ENTITY''" using sw by (simp add: starts_with_def eval_nat_numeral)
  also have "drop 8 s = ?w1 @ ?r1" by simp
  also have "?r1 = ?n @ ?r2" by simp
  also have "?r2 = ?w2 @ ?r3" by simp
  also have "?r3 = q # v @ q # w3 @ CHR ''>'' # ?g @ rest" using r3 r4 rest by simp
  finally have s: "s = ''<!ENTITY'' @ ?w1 @ ?n @ ?w2 @ q # v @ q # w3 @ CHR ''>'' # ?g @ rest" .
  have sd: "s = entity_decl ?d @ rest"
    by (subst s) (simp add: entity_decl_def nn)
  have sp1: "list_all is_space ?w1" by (auto simp: list_all_iff dest: set_takeWhileD)
  have sp2: "list_all is_space ?w2" by (auto simp: list_all_iff dest: set_takeWhileD)
  have spg: "list_all is_space ?g" by (auto simp: list_all_iff dest: set_takeWhileD)
  have nsp: "\<not> list_ex is_space ?n" by (auto simp: list_ex_iff dest: set_takeWhileD)
  have shaped: "entity_shaped ?d"
    using ne sp1 sp2 spg nsp q vl w3 nn by (simp add: entity_shaped_def)
  have hd: "rest = [] \<or> \<not> is_space (hd rest)"
    unfolding rest using hd_dropWhile [of is_space rest'] by blast
  from sd shaped hd show ?thesis
    by (intro exI [of _ ?d]) simp
qed

lemma entity_decl_front: "\<exists>r. entity_decl d = CHR ''<'' # r"
  by (simp add: entity_decl_def)

lemma declarations_Cons: "declarations (d # ds) = entity_decl d @ declarations ds"
  by (simp add: declarations_def)

lemma declarations_append: "declarations (ds @ es) = declarations ds @ declarations es"
  by (simp add: declarations_def)

lemma declarations_front: "declarations ds = [] \<or> \<not> is_space (hd (declarations ds))"
proof (cases ds)
  case Nil
  then show ?thesis by (simp add: declarations_def)
next
  case (Cons d ds')
  from entity_decl_front [of d] obtain r where "entity_decl d = CHR ''<'' # r" by blast
  with Cons show ?thesis by (simp add: declarations_Cons not_space_lt)
qed

lemma scan_declarations:
  "list_all well_formed_decl ds \<Longrightarrow> scan_entities doctype (declarations ds) s = register_all ds s"
proof (induction ds arbitrary: s)
  case Nil
  show ?case by (simp add: declarations_def scan_entities_empty)
next
  case (Cons d ds)
  from Cons.prems have wf: "well_formed_decl d" and rest: "list_all well_formed_decl ds" by simp_all
  let ?c = "entity_decl d @ declarations ds"
  have em: "entity_match ?c = Some (decl_name d, decl_value d, declarations ds)"
    using wf declarations_front [of ds] by (rule entity_match_found)
  from entity_decl_front [of d] have ne: "?c \<noteq> []" by auto
  show ?case
  proof (cases "map_of (entities s) (decl_name d) = None")
    case True
    from scan_entities_register [OF ne em True, of doctype] Cons.IH [OF rest] True
    show ?thesis by (simp add: declarations_Cons)
  next
    case False
    from scan_entities_duplicate [OF ne em False, of doctype] False
    show ?thesis by (simp add: declarations_Cons)
  qed
qed

lemma register_all_cong:
  "map (\<lambda>d. (decl_name d, decl_value d)) ds = map (\<lambda>d. (decl_name d, decl_value d)) es \<Longrightarrow>
     register_all ds s = register_all es s"
proof (induction ds arbitrary: es s)
  case Nil
  then show ?case by simp
next
  case (Cons d ds)
  then obtain e es' where es: "es = e # es'" by (cases es) auto
  with Cons.prems have "decl_name d = decl_name e" and "decl_value d = decl_value e"
    and "map (\<lambda>d. (decl_name d, decl_value d)) ds = map (\<lambda>d. (decl_name d, decl_value d)) es'"
    by simp_all
  with Cons.IH [of es'] es show ?case by simp
qed

lemma space_not_bracket: "is_space c \<Longrightarrow> c \<noteq> CHR '']''"
  by (auto simp: is_space_def)

lemma trimmed_declarations:
  assumes "list_all is_space ws" and "list_all well_formed_decl ds"
  shows "\<exists>es. trim (ws @ declarations ds) = declarations es \<and> list_all well_formed_decl es
              \<and> map (\<lambda>d. (decl_name d, decl_value d)) es = map (\<lambda>d. (decl_name d, decl_value d)) ds"
proof (cases ds rule: rev_cases)
  case Nil
  have "trim (ws @ [] @ []) = []" using assms(1) by (intro trim_core) simp_all
  with Nil show ?thesis by (intro exI [of _ "[]"]) (simp add: declarations_def)
next
  case (snoc ds' dl)
  let ?dl = "dl\<lparr> decl_gap := [] \<rparr>"
  let ?es = "ds' @ [?dl]"
  from assms(2) snoc have wl: "well_formed_decl dl" and wd: "list_all well_formed_decl ds'"
    by simp_all
  from wl have wl': "well_formed_decl ?dl" and gap: "list_all is_space (decl_gap dl)"
    by (simp_all add: well_formed_decl_def entity_shaped_def)
  have split: "entity_decl dl = entity_decl ?dl @ decl_gap dl" by (simp add: entity_decl_def)
  have ds: "declarations ds = declarations ?es @ decl_gap dl"
    by (simp add: snoc declarations_append declarations_def split)
  have lst: "last (declarations ?es) = CHR ''>''"
    by (simp add: declarations_append declarations_def entity_decl_def)
  have ne: "declarations ?es \<noteq> []"
    by (simp add: declarations_append declarations_def entity_decl_def)
  have core: "declarations ?es = [] \<or> (\<not> is_space (hd (declarations ?es)) \<and> \<not> is_space (last (declarations ?es)))"
    using declarations_front [of ?es] ne lst by (simp add: not_space_gt)
  have "trim (ws @ declarations ?es @ decl_gap dl) = declarations ?es"
    using assms(1) gap core by (rule trim_core)
  with ds have "trim (ws @ declarations ds) = declarations ?es" by simp
  moreover have "list_all well_formed_decl ?es" using wd wl' by simp
  moreover have "map (\<lambda>d. (decl_name d, decl_value d)) ?es = map (\<lambda>d. (decl_name d, decl_value d)) ds"
    by (simp add: snoc)
  ultimately show ?thesis by blast
qed

lemma on_doctype_declarations:
  assumes "CHR ''['' \<notin> set pre" and "\<not> list_ex is_line_term pre" and "\<not> list_ex is_line_term post"
    and "list_all is_space ws" and "list_all well_formed_decl ds"
    and "CHR '']'' \<notin> set (declarations ds)" and "\<not> sublist ''<!--'' (ws @ declarations ds)"
  shows "on_doctype (pre @ CHR ''['' # (ws @ declarations ds) @ CHR '']'' # post) s = register_all ds s"
proof -
  let ?body = "ws @ declarations ds"
  let ?doctype = "pre @ CHR ''['' # ?body @ CHR '']'' # post"
  have nb: "CHR '']'' \<notin> set ?body"
    using assms(4,6) by (auto simp: list_all_iff dest: space_not_bracket)
  have "cleaned_doctype ?doctype = trim (strip_comments ?body)"
    using assms(1,2) nb assms(3) by (rule cleaned_doctype_brackets)
  also have "strip_comments ?body = ?body" using assms(7) by (intro strip_comments_none) simp
  finally have cl: "cleaned_doctype ?doctype = trim ?body" .
  from trimmed_declarations [OF assms(4,5)] obtain es where
    tr: "trim ?body = declarations es" and wf: "list_all well_formed_decl es"
    and same: "map (\<lambda>d. (decl_name d, decl_value d)) es = map (\<lambda>d. (decl_name d, decl_value d)) ds"
    by blast
  have "on_doctype ?doctype s = scan_entities ?doctype (declarations es) s"
    by (simp only: on_doctype_def cl tr)
  also have "\<dots> = register_all es s" using wf by (rule scan_declarations)
  also have "\<dots> = register_all ds s" using same by (rule register_all_cong)
  finally show ?thesis .
qed


text \<open>
  C9 (as amended). For every doctype token the scanner strips the text through the first
  \<open>[\<close> when no line break comes before it (otherwise nothing), strips from the first \<open>]\<close>
  of the last line to the end, strips every comment and trims the white space at both ends;
  then it repeatedly matches the \<open><!ENTITY name "value">\<close> pattern at the front of what
  remains (the keyword, white space, a name without white space, white space, a value
  between two equal quotes and free of line breaks, \<open>>\<close>, each match taking the white space
  after it as well), registering each entity and throwing on a name that is already defined,
  so that no entity is ever redefined; text that remains when the pattern no longer matches
  makes it throw as well. Hence a doctype whose brackets enclose well-formed declarations
  is scanned into exactly these declarations. Either exception ends the run with the
  classification \<open>MALFORMED\<close> and one diagnostic carrying its message.
\<close>

theorem doctype_entity_scanner:
  "(CHR ''['' \<notin> set pre \<and> \<not> list_ex is_line_term pre \<and> CHR '']'' \<notin> set body
      \<and> \<not> list_ex is_line_term post \<longrightarrow>
      on_doctype (pre @ CHR ''['' # body @ CHR '']'' # post) s
        = scan_entities (pre @ CHR ''['' # body @ CHR '']'' # post) (trim (strip_comments body)) s)
   \<and> (CHR ''['' \<notin> set h \<or> list_ex is_line_term (takeWhile (\<lambda>c. c \<noteq> CHR ''['') h) \<longrightarrow>
        strip_head h = h)
   \<and> ((a = [] \<or> is_line_term (last a)) \<and> \<not> list_ex is_line_term b \<longrightarrow>
        strip_tail (a @ b) = a @ takeWhile (\<lambda>c. c \<noteq> CHR '']'') b)
   \<and> (\<not> sublist ''<!--'' (t @ ''<!-'') \<and> \<not> sublist ''-->'' (c @ ''--'') \<longrightarrow>
        strip_comments (t @ ''<!--'' @ c @ ''-->'' @ u) = t @ strip_comments u)
   \<and> (\<not> sublist ''<!--'' u \<or> \<not> sublist ''-->'' u \<longrightarrow> strip_comments u = u)
   \<and> (list_all is_space lead \<and> list_all is_space trail
        \<and> (core = [] \<or> \<not> is_space (hd core) \<and> \<not> is_space (last core)) \<longrightarrow>
        trim (lead @ core @ trail) = core)
   \<and> (well_formed_decl d \<and> (rest = [] \<or> \<not> is_space (hd rest)) \<longrightarrow>
        entity_match (entity_decl d @ rest) = Some (decl_name d, decl_value d, rest))
   \<and> (well_formed_decl d \<and> decl_quote d \<notin> set v \<and> list_ex is_line_term v \<longrightarrow>
        entity_match (entity_decl (d\<lparr> decl_value := v \<rparr>) @ rest) = None)
   \<and> (\<forall>n x r. entity_match cleaned = Some (n, x, r) \<longrightarrow>
          (\<exists>e. cleaned = entity_decl e @ r \<and> decl_name e = n \<and> decl_value e = x
                \<and> entity_shaped e \<and> (r = [] \<or> \<not> is_space (hd r))))
   \<and> (list_all well_formed_decl ds \<longrightarrow>
        scan_entities doctype (declarations ds) s = register_all ds s)
   \<and> (CHR ''['' \<notin> set pre \<and> \<not> list_ex is_line_term pre \<and> \<not> list_ex is_line_term post
        \<and> list_all is_space ws \<and> list_all well_formed_decl ds
        \<and> CHR '']'' \<notin> set (declarations ds) \<and> \<not> sublist ''<!--'' (ws @ declarations ds) \<longrightarrow>
        on_doctype (pre @ CHR ''['' # (ws @ declarations ds) @ CHR '']'' # post) s
          = register_all ds s)
   \<and> (cleaned \<noteq> [] \<and> entity_match cleaned = None \<longrightarrow>
        scan_entities doctype cleaned s
          = Thrown (''unexpected construct in DOCTYPE: '' @ doctype)
                   (s\<lparr> errorCount := errorCount s + 1 \<rparr>))
   \<and> (\<forall>n x. map_of (entities s) n = Some x \<longrightarrow>
          map_of (entities (state_of (on_doctype doctype s))) n = Some x)
   \<and> (\<forall>m s1. on_doctype doctype s = Thrown m s1 \<longrightarrow>
          error (try_block A doc ((pos, Doctype doctype) # toks) s) = ERR_WELLFORM
          \<and> dispatch (error (try_block A doc ((pos, Doctype doctype) # toks) s)) = not_well_formed
          \<and> diagnostics (try_block A doc ((pos, Doctype doctype) # toks) s)
              = diagnostics s @
                  [\<lparr> range_d = (int (fst pos) - 1, 0, int (fst pos) - 1, int (snd pos)),
                     message = m \<rparr>])"
proof -
  have brackets: "CHR ''['' \<notin> set pre \<and> \<not> list_ex is_line_term pre \<and> CHR '']'' \<notin> set body
      \<and> \<not> list_ex is_line_term post \<longrightarrow>
      on_doctype (pre @ CHR ''['' # body @ CHR '']'' # post) s
        = scan_entities (pre @ CHR ''['' # body @ CHR '']'' # post) (trim (strip_comments body)) s"
    using cleaned_doctype_brackets [of pre body post] by (simp add: on_doctype_def)
  have head: "CHR ''['' \<notin> set h \<or> list_ex is_line_term (takeWhile (\<lambda>c. c \<noteq> CHR ''['') h) \<longrightarrow>
        strip_head h = h"
    using strip_head_unchanged [of h] by blast
  have tail: "(a = [] \<or> is_line_term (last a)) \<and> \<not> list_ex is_line_term b \<longrightarrow>
                strip_tail (a @ b) = a @ takeWhile (\<lambda>c. c \<noteq> CHR '']'') b"
    using strip_tail_last_line [of a b] by blast
  have comment: "\<not> sublist ''<!--'' (t @ ''<!-'') \<and> \<not> sublist ''-->'' (c @ ''--'') \<longrightarrow>
        strip_comments (t @ ''<!--'' @ c @ ''-->'' @ u) = t @ strip_comments u"
    using strip_comments_comment [of t c u] by blast
  have plain: "\<not> sublist ''<!--'' u \<or> \<not> sublist ''-->'' u \<longrightarrow> strip_comments u = u"
    using strip_comments_none [of u] by blast
  have trimmed: "list_all is_space lead \<and> list_all is_space trail
        \<and> (core = [] \<or> \<not> is_space (hd core) \<and> \<not> is_space (last core)) \<longrightarrow>
        trim (lead @ core @ trail) = core"
    using trim_core [of lead trail core] by blast
  have found: "well_formed_decl d \<and> (rest = [] \<or> \<not> is_space (hd rest)) \<longrightarrow>
        entity_match (entity_decl d @ rest) = Some (decl_name d, decl_value d, rest)"
    using entity_match_found [of d rest] by blast
  have broken: "well_formed_decl d \<and> decl_quote d \<notin> set v \<and> list_ex is_line_term v \<longrightarrow>
        entity_match (entity_decl (d\<lparr> decl_value := v \<rparr>) @ rest) = None"
    using entity_match_line_break [of d v rest] by blast
  have sound: "\<forall>n x r. entity_match cleaned = Some (n, x, r) \<longrightarrow>
          (\<exists>e. cleaned = entity_decl e @ r \<and> decl_name e = n \<and> decl_value e = x
                \<and> entity_shaped e \<and> (r = [] \<or> \<not> is_space (hd r)))"
    using entity_match_sound [of cleaned] by blast
  have loop: "list_all well_formed_decl ds \<longrightarrow>
        scan_entities doctype (declarations ds) s = register_all ds s"
    using scan_declarations [of ds doctype s] by blast
  have whole: "CHR ''['' \<notin> set pre \<and> \<not> list_ex is_line_term pre \<and> \<not> list_ex is_line_term post
        \<and> list_all is_space ws \<and> list_all well_formed_decl ds
        \<and> CHR '']'' \<notin> set (declarations ds) \<and> \<not> sublist ''<!--'' (ws @ declarations ds) \<longrightarrow>
        on_doctype (pre @ CHR ''['' # (ws @ declarations ds) @ CHR '']'' # post) s
          = register_all ds s"
    using on_doctype_declarations [of pre post ws ds s] by blast
  have res: "cleaned \<noteq> [] \<and> entity_match cleaned = None \<longrightarrow>
        scan_entities doctype cleaned s
          = Thrown (''unexpected construct in DOCTYPE: '' @ doctype)
                   (s\<lparr> errorCount := errorCount s + 1 \<rparr>)"
    using scan_entities_residue [of cleaned doctype s] by blast
  have keep: "\<forall>n x. map_of (entities s) n = Some x \<longrightarrow>
          map_of (entities (state_of (on_doctype doctype s))) n = Some x"
    by (simp add: on_doctype_def scan_entities_never_redefines)
  have thrown: "\<forall>m s1. on_doctype doctype s = Thrown m s1 \<longrightarrow>
          error (try_block A doc ((pos, Doctype doctype) # toks) s) = ERR_WELLFORM
          \<and> dispatch (error (try_block A doc ((pos, Doctype doctype) # toks) s)) = not_well_formed
          \<and> diagnostics (try_block A doc ((pos, Doctype doctype) # toks) s)
              = diagnostics s @
                  [\<lparr> range_d = (int (fst pos) - 1, 0, int (fst pos) - 1, int (snd pos)),
                     message = m \<rparr>]"
  proof (intro allI impI)
    fix m s1 assume t: "on_doctype doctype s = Thrown m s1"
    then have f: "feed A doc ((pos, Doctype doctype) # toks) s = Aborted pos m s1"
      by (simp add: handle_def)
    from t scan_entities_keeps [of doctype "cleaned_doctype doctype" s]
    have d: "diagnostics s1 = diagnostics s" by (simp add: on_doctype_def)
    from try_block_aborted [OF f] d
    show "error (try_block A doc ((pos, Doctype doctype) # toks) s) = ERR_WELLFORM
          \<and> dispatch (error (try_block A doc ((pos, Doctype doctype) # toks) s)) = not_well_formed
          \<and> diagnostics (try_block A doc ((pos, Doctype doctype) # toks) s)
              = diagnostics s @
                  [\<lparr> range_d = (int (fst pos) - 1, 0, int (fst pos) - 1, int (snd pos)),
                     message = m \<rparr>]"
      by (simp add: catch_block_def)
  qed
  from brackets head tail comment plain trimmed found broken sound loop whole res keep thrown
  show ?thesis by (intro conjI)
qed

theorem doctype_entity_scanner_witness:
  "on_doctype two_entities (init_state False [])
     = Thrown ''redefining entity: a'' ((init_state False [])\<lparr> entities := [(''a'', ''1'')] \<rparr>)
   \<and> errorType (validation_run root_automaton False [] None
                  [((1, 47), Doctype two_entities), ((1, 53), Open doc_element), ((1, 53), Close)])
       = ERR_WELLFORM
   \<and> map message (diagnostics_r (validation_run root_automaton False [] None
                  [((1, 47), Doctype two_entities), ((1, 53), Open doc_element), ((1, 53), Close)]))
       = [''redefining entity: a'']
   \<and> on_doctype two_entities (init_state False [])
       = scan_entities two_entities
           (trim (strip_comments (declarations [entity_a ''1'', entity_a ''2''])))
           (init_state False [])
   \<and> strip_head ('' doc'' @ [CHR 0x0A] @ ''[x]'') = '' doc'' @ [CHR 0x0A] @ ''[x]''
   \<and> strip_tail ([CHR 0x0A] @ ''x]y]'') = [CHR 0x0A] @ ''x''
   \<and> strip_comments (''x'' @ ''<!--'' @ '' - '' @ ''-->'' @ ''y'') = ''xy''
   \<and> trim ('' '' @ ''x y'' @ [CHR 0x0A]) = ''x y''
   \<and> entity_match (entity_decl (entity_a ''1'') @ ''<'') = Some (''a'', ''1'', ''<'')
   \<and> entity_match (entity_decl ((entity_a ''1'')\<lparr> decl_value := [CHR 0x0A] \<rparr>) @ ''<'') = None
   \<and> (\<exists>e. entity_decl (entity_a ''1'') = entity_decl e @ [] \<and> decl_name e = ''a''
            \<and> decl_value e = ''1'' \<and> entity_shaped e)
   \<and> scan_entities ''d'' (declarations [entity_a ''1'']) (init_state False [])
       = Done ((init_state False [])\<lparr> entities := [(''a'', ''1'')] \<rparr>)
   \<and> scan_entities ''d'' ''x'' (init_state False [])
       = Thrown ''unexpected construct in DOCTYPE: d'' ((init_state False [])\<lparr> errorCount := 1 \<rparr>)
   \<and> map_of (entities (state_of (on_doctype two_entities (init_state False [(''a'', ''0'')])))) ''a''
       = Some ''0''"
proof -
  let ?toks = "[((1, 53), Open doc_element), ((1, 53), Close)]"
  let ?s0 = "init_state False [] :: bool run_state"
  let ?s1 = "init_state False [(''a'', ''0'')] :: bool run_state"
  let ?ds = "[entity_a ''1'', entity_a ''2'']"
  note t = doctype_entity_scanner
             [where pre = "'' doc ''" and post = "[]" and ws = "[]" and ds = ?ds and s = ?s0
                and body = "declarations ?ds" and doctype = two_entities
                and A = root_automaton and doc = None and pos = "(1, 47)" and toks = ?toks
                and h = "'' doc'' @ [CHR 0x0A] @ ''[x]''" and a = "[CHR 0x0A]" and b = "''x]y]''"
                and t = "''x''" and c = "'' - ''" and u = "''y''"
                and lead = "'' ''" and core = "''x y''" and trail = "[CHR 0x0A]"
                and d = "entity_a ''1''" and rest = "''<''" and v = "[CHR 0x0A]"
                and cleaned = "entity_decl (entity_a ''1'')"]
  note t2 = doctype_entity_scanner
              [where cleaned = "''x''" and doctype = "''d''" and s = ?s0 and ds = "[entity_a ''1'']"]
  note t3 = doctype_entity_scanner [where doctype = two_entities and s = ?s1]
  note brackets = t [THEN conjunct1, rule_format]
  note head = t [THEN conjunct2, THEN conjunct1, rule_format]
  note tail = t [THEN conjunct2, THEN conjunct2, THEN conjunct1, rule_format]
  note comment = t [THEN conjunct2, THEN conjunct2, THEN conjunct2, THEN conjunct1, rule_format]
  note plain = t [THEN conjunct2, THEN conjunct2, THEN conjunct2, THEN conjunct2, THEN conjunct1, rule_format]
  note trimmed = t [THEN conjunct2, THEN conjunct2, THEN conjunct2, THEN conjunct2, THEN conjunct2, THEN conjunct1, rule_format]
  note found = t [THEN conjunct2, THEN conjunct2, THEN conjunct2, THEN conjunct2, THEN conjunct2, THEN conjunct2, THEN conjunct1, rule_format]
  note broken = t [THEN conjunct2, THEN conjunct2, THEN conjunct2, THEN conjunct2, THEN conjunct2, THEN conjunct2, THEN conjunct2, THEN conjunct1, rule_format]
  note sound = t [THEN conjunct2, THEN conjunct2, THEN conjunct2, THEN conjunct2, THEN conjunct2, THEN conjunct2, THEN conjunct2, THEN conjunct2, THEN conjunct1, rule_format]
  note loop = t2 [THEN conjunct2, THEN conjunct2, THEN conjunct2, THEN conjunct2, THEN conjunct2, THEN conjunct2, THEN conjunct2, THEN conjunct2, THEN conjunct2, THEN conjunct1, rule_format]
  note whole = t [THEN conjunct2, THEN conjunct2, THEN conjunct2, THEN conjunct2, THEN conjunct2, THEN conjunct2, THEN conjunct2, THEN conjunct2, THEN conjunct2, THEN conjunct2, THEN conjunct1, rule_format]
  note residue = t2 [THEN conjunct2, THEN conjunct2, THEN conjunct2, THEN conjunct2, THEN conjunct2, THEN conjunct2, THEN conjunct2, THEN conjunct2, THEN conjunct2, THEN conjunct2, THEN conjunct2, THEN conjunct1, rule_format]
  note keep = t3 [THEN conjunct2, THEN conjunct2, THEN conjunct2, THEN conjunct2, THEN conjunct2, THEN conjunct2, THEN conjunct2, THEN conjunct2, THEN conjunct2, THEN conjunct2, THEN conjunct2, THEN conjunct2, THEN conjunct1, rule_format]
  note thrown = t [THEN conjunct2, THEN conjunct2, THEN conjunct2, THEN conjunct2, THEN conjunct2, THEN conjunct2, THEN conjunct2, THEN conjunct2, THEN conjunct2, THEN conjunct2, THEN conjunct2, THEN conjunct2, THEN conjunct2, rule_format]
  have eq: "'' doc '' @ CHR ''['' # ([] @ declarations ?ds) @ CHR '']'' # [] = two_entities"
    by code_simp
  have hw: "CHR ''['' \<notin> set '' doc '' \<and> \<not> list_ex is_line_term '' doc '' \<and> \<not> list_ex is_line_term []
        \<and> list_all is_space [] \<and> list_all well_formed_decl ?ds
        \<and> CHR '']'' \<notin> set (declarations ?ds) \<and> \<not> sublist ''<!--'' ([] @ declarations ?ds)"
    by code_simp
  have reg: "register_all ?ds ?s0
               = Thrown ''redefining entity: a'' (?s0\<lparr> entities := [(''a'', ''1'')] \<rparr>)"
    by code_simp
  have th: "on_doctype two_entities ?s0
     = Thrown ''redefining entity: a'' (?s0\<lparr> entities := [(''a'', ''1'')] \<rparr>)"
    using whole [OF hw] by (simp only: eq reg)
  note ab = thrown [OF th]
  from ab have e': "errorType (validation_run root_automaton False [] None
                  [((1, 47), Doctype two_entities), ((1, 53), Open doc_element), ((1, 53), Close)])
       = ERR_WELLFORM"
    by (simp add: validation_run_def Let_def)
  from ab have d': "map message (diagnostics_r (validation_run root_automaton False [] None
                  [((1, 47), Doctype two_entities), ((1, 53), Open doc_element), ((1, 53), Close)]))
       = [''redefining entity: a'']"
    by (simp add: validation_run_def Let_def init_state_def)
  have hk1: "CHR ''['' \<notin> set '' doc '' \<and> \<not> list_ex is_line_term '' doc ''
             \<and> CHR '']'' \<notin> set (declarations ?ds) \<and> \<not> list_ex is_line_term []"
    by code_simp
  have eq2: "'' doc '' @ CHR ''['' # declarations ?ds @ CHR '']'' # [] = two_entities"
    by code_simp
  have bk: "on_doctype two_entities ?s0
       = scan_entities two_entities (trim (strip_comments (declarations ?ds))) ?s0"
    using brackets [OF hk1] by (simp only: eq2)
  have hh: "CHR ''['' \<notin> set ('' doc'' @ [CHR 0x0A] @ ''[x]'')
            \<or> list_ex is_line_term (takeWhile (\<lambda>c. c \<noteq> CHR ''['') ('' doc'' @ [CHR 0x0A] @ ''[x]''))"
    by code_simp
  note hd = head [OF hh]
  have ht: "([CHR 0x0A] = [] \<or> is_line_term (last [CHR 0x0A])) \<and> \<not> list_ex is_line_term ''x]y]''"
    by code_simp
  have tl: "strip_tail ([CHR 0x0A] @ ''x]y]'') = [CHR 0x0A] @ ''x''"
    using tail [OF ht] by simp
  have hc: "\<not> sublist ''<!--'' (''x'' @ ''<!-'') \<and> \<not> sublist ''-->'' ('' - '' @ ''--'')"
    by code_simp
  have hp: "\<not> sublist ''<!--'' ''y'' \<or> \<not> sublist ''-->'' ''y''" by code_simp
  have cm: "strip_comments (''x'' @ ''<!--'' @ '' - '' @ ''-->'' @ ''y'') = ''xy''"
    using comment [OF hc] plain [OF hp] by simp
  have hm: "list_all is_space '' '' \<and> list_all is_space [CHR 0x0A]
        \<and> (''x y'' = [] \<or> \<not> is_space (hd ''x y'') \<and> \<not> is_space (last ''x y''))"
    by code_simp
  note tr = trimmed [OF hm]
  have hf: "well_formed_decl (entity_a ''1'') \<and> (''<'' = [] \<or> \<not> is_space (hd ''<''))"
    by code_simp
  have fd: "entity_match (entity_decl (entity_a ''1'') @ ''<'') = Some (''a'', ''1'', ''<'')"
    using found [OF hf] by (simp add: entity_a_def)
  have hb: "well_formed_decl (entity_a ''1'') \<and> decl_quote (entity_a ''1'') \<notin> set [CHR 0x0A]
            \<and> list_ex is_line_term [CHR 0x0A]"
    by code_simp
  note br = broken [OF hb]
  have hs: "entity_match (entity_decl (entity_a ''1'')) = Some (''a'', ''1'', [])" by code_simp
  from sound [OF hs] have sd: "\<exists>e. entity_decl (entity_a ''1'') = entity_decl e @ [] \<and> decl_name e = ''a''
            \<and> decl_value e = ''1'' \<and> entity_shaped e" by blast
  have hl: "list_all well_formed_decl [entity_a ''1'']" by code_simp
  have rg: "register_all [entity_a ''1''] ?s0 = Done (?s0\<lparr> entities := [(''a'', ''1'')] \<rparr>)"
    by code_simp
  have lp: "scan_entities ''d'' (declarations [entity_a ''1'']) ?s0
              = Done (?s0\<lparr> entities := [(''a'', ''1'')] \<rparr>)"
    using loop [OF hl] by (simp only: rg)
  have hr: "''x'' \<noteq> [] \<and> entity_match ''x'' = None" by code_simp
  have rs: "scan_entities ''d'' ''x'' ?s0
       = Thrown ''unexpected construct in DOCTYPE: d'' (?s0\<lparr> errorCount := 1 \<rparr>)"
    using residue [OF hr] by (simp add: init_state_def)
  have hk: "map_of (entities ?s1) ''a'' = Some ''0''" by (simp add: init_state_def)
  note kp = keep [OF hk]
  from th e' d' bk hd tl cm tr fd br sd lp rs kp show ?thesis by (intro conjI)
qed

text \<open>
  As stated, with everything after the last \<open>]\<close> stripped, the claim fails on
  \<open><!DOCTYPE doc [<!ENTITY a "]">]>\<close>: the code cuts at the first \<open>]\<close>, inside the value, and
  ends the run as \<open>MALFORMED\<close>, where the text between the first \<open>[\<close> and the last \<open>]\<close> is
  one entity declaration that the scanner would register.
\<close>

theorem doctype_last_bracket_counterexample:
  "strip_tail (strip_head bracket_entity) = ''<!ENTITY a '' @ [CHR 0x22]
   \<and> between_brackets bracket_entity = ''<!ENTITY a '' @ [CHR 0x22] @ '']'' @ [CHR 0x22] @ ''>''
   \<and> errorType (validation_run root_automaton False [] None
                  [((1, 32), Doctype bracket_entity), ((1, 38), Open doc_element), ((1, 38), Close)])
       = ERR_WELLFORM
   \<and> scan_entities bracket_entity (trim (strip_comments (between_brackets bracket_entity)))
        (init_state False [])
       = Done ((init_state False [])\<lparr> entities := [(''a'', '']'')] \<rparr>)"
proof -
  have "strip_tail (strip_head bracket_entity) = ''<!ENTITY a '' @ [CHR 0x22]" by code_simp
  moreover have "between_brackets bracket_entity
                   = ''<!ENTITY a '' @ [CHR 0x22] @ '']'' @ [CHR 0x22] @ ''>''" by code_simp
  moreover have "errorType (validation_run root_automaton False [] None
                  [((1, 32), Doctype bracket_entity), ((1, 38), Open doc_element), ((1, 38), Close)])
       = ERR_WELLFORM" by code_simp
  moreover have "scan_entities bracket_entity (trim (strip_comments (between_brackets bracket_entity)))
        (init_state False [])
       = Done ((init_state False [])\<lparr> entities := [(''a'', '']'')] \<rparr>)" by code_simp
  ultimately show ?thesis by (intro conjI)
qed

end
